theory Spec2Isabelle
  imports Main "HOL-Library.Word" "HOL-Library.Signed_Division"
begin

section \<open>The UMD container decoder of \<^verbatim>\<open>umd_io.py\<close>\<close>

text \<open>
  The development follows \<^verbatim>\<open>src/umd_metadata_ng/umd_io.py\<close>: the three stream
  readers \<^verbatim>\<open>read_metadata\<close>, \<^verbatim>\<open>read_content\<close>, \<^verbatim>\<open>read_cover\<close> and the chapter
  construction of \<^verbatim>\<open>from_stream\<close>.

  Conventions of the embedding:
  \<^item> a byte is an \<open>8 word\<close>; a Python \<^verbatim>\<open>bytes\<close> value is a list of bytes;
  \<^item> a Python \<^verbatim>\<open>int\<close> is an \<open>int\<close>; a Python \<^verbatim>\<open>str\<close> is the list of its code points;
  \<^item> an exception is a value of \<open>error\<close>, returned on the left of a sum;
  \<^item> the stream is a record of its bytes and its position, passed explicitly;
  \<^item> \<^verbatim>\<open>zlib.decompress\<close> belongs to the Python library and is a parameter \<open>dec\<close>;
  \<^item> the calls of the logger do not change any value and are left out.
\<close>

subsection \<open>Exceptions\<close>

text \<open>
  The source defines no exception class of its own. It raises \<^verbatim>\<open>ValueError\<close> for a wrong
  file header, and relies on \<^verbatim>\<open>assert\<close> (\<^verbatim>\<open>AssertionError\<close>), on \<^verbatim>\<open>struct.unpack\<close>
  (\<^verbatim>\<open>struct.error\<close> when the buffer has not the size of the format), on dictionary and tuple
  lookups (\<^verbatim>\<open>KeyError\<close>, \<^verbatim>\<open>IndexError\<close>), on \<^verbatim>\<open>zlib.decompress\<close> (\<^verbatim>\<open>zlib.error\<close>) and on
  \<^verbatim>\<open>bytes.decode\<close> (\<^verbatim>\<open>UnicodeDecodeError\<close>).
\<close>

datatype error =
    ValueError
  | AssertionError
  | StructError
  | KeyError
  | IndexError
  | ZlibError
  | UnicodeDecodeError

subsection \<open>Bytes, integers and strings\<close>

type_synonym byte = "8 word"
type_synonym bytes = "byte list"
type_synonym pystr = "nat list"

text \<open>A \<^verbatim>\<open>str\<close> literal of the source, as code points.\<close>

definition py_str :: "string \<Rightarrow> pystr" where
  "py_str cs = map (\<lambda>c. of_char c) cs"

text \<open>The unsigned value of a little-endian byte string.\<close>

fun le_bytes :: "bytes \<Rightarrow> int" where
  "le_bytes [] = 0"
| "le_bytes (b # bs) = uint b + 256 * le_bytes bs"

text \<open>Two's complement reading of an unsigned value of the given width.\<close>

definition signed :: "nat \<Rightarrow> int \<Rightarrow> int" where
  "signed w u = (if u < 2 ^ (w - 1) then u else u - 2 ^ w)"

definition int8 :: "bytes \<Rightarrow> int" where
  "int8 bs = signed 8 (le_bytes bs)"

definition int16 :: "bytes \<Rightarrow> int" where
  "int16 bs = signed 16 (le_bytes bs)"

definition uint16 :: "bytes \<Rightarrow> int" where
  "uint16 bs = le_bytes bs"

definition int32 :: "bytes \<Rightarrow> int" where
  "int32 bs = signed 32 (le_bytes bs)"

text \<open>
  \<^verbatim>\<open>struct.unpack\<close>, one function for each format string of the source. The buffer must
  have exactly the size of the format (little-endian, no padding), otherwise
  \<^verbatim>\<open>struct.error\<close> is raised. A field of format \<^verbatim>\<open>c\<close> is a \<^verbatim>\<open>bytes\<close> value of length one.
\<close>

definition unpack_cH :: "bytes \<Rightarrow> error + (bytes \<times> int)" where
  "unpack_cH bs =
     (if length bs \<noteq> 3 then Inl StructError
      else Inr (take 1 bs, uint16 (take 2 (drop 1 bs))))"

definition unpack_hbh :: "bytes \<Rightarrow> error + (int \<times> int \<times> int)" where
  "unpack_hbh bs =
     (if length bs \<noteq> 5 then Inl StructError
      else Inr (int16 (take 2 bs), int8 (take 1 (drop 2 bs)), int16 (take 2 (drop 3 bs))))"

definition unpack_bb :: "bytes \<Rightarrow> error + (int \<times> int)" where
  "unpack_bb bs =
     (if length bs \<noteq> 2 then Inl StructError
      else Inr (int8 (take 1 bs), int8 (take 1 (drop 1 bs))))"

definition unpack_hi :: "bytes \<Rightarrow> error + (int \<times> int)" where
  "unpack_hi bs =
     (if length bs \<noteq> 6 then Inl StructError
      else Inr (int16 (take 2 bs), int32 (take 4 (drop 2 bs))))"

definition unpack_hibii :: "bytes \<Rightarrow> error + (int \<times> int \<times> int \<times> int \<times> int)" where
  "unpack_hibii bs =
     (if length bs \<noteq> 15 then Inl StructError
      else Inr (int16 (take 2 bs), int32 (take 4 (drop 2 bs)), int8 (take 1 (drop 6 bs)),
                int32 (take 4 (drop 7 bs)), int32 (take 4 (drop 11 bs))))"

definition unpack_b :: "bytes \<Rightarrow> error + int" where
  "unpack_b bs = (if length bs \<noteq> 1 then Inl StructError else Inr (int8 bs))"

definition unpack_h :: "bytes \<Rightarrow> error + int" where
  "unpack_h bs = (if length bs \<noteq> 2 then Inl StructError else Inr (int16 bs))"

definition unpack_h16c :: "bytes \<Rightarrow> error + (int \<times> bytes list)" where
  "unpack_h16c bs =
     (if length bs \<noteq> 18 then Inl StructError
      else Inr (int16 (take 2 bs), map (\<lambda>b. [b]) (drop 2 bs)))"

definition unpack_ii :: "bytes \<Rightarrow> error + (int \<times> int)" where
  "unpack_ii bs =
     (if length bs \<noteq> 8 then Inl StructError
      else Inr (int32 (take 4 bs), int32 (take 4 (drop 4 bs))))"

definition unpack_bbbibii ::
  "bytes \<Rightarrow> error + (int \<times> int \<times> int \<times> int \<times> int \<times> int \<times> int)" where
  "unpack_bbbibii bs =
     (if length bs \<noteq> 16 then Inl StructError
      else Inr (int8 (take 1 bs), int8 (take 1 (drop 1 bs)), int8 (take 1 (drop 2 bs)),
                int32 (take 4 (drop 3 bs)), int8 (take 1 (drop 7 bs)),
                int32 (take 4 (drop 8 bs)), int32 (take 4 (drop 12 bs))))"

text \<open>The fields of a buffer of 32-bit values, in the order of the buffer.\<close>

fun int32s :: "bytes \<Rightarrow> int list" where
  "int32s (a # b # c # d # bs) = int32 [a, b, c, d] # int32s bs"
| "int32s _ = []"

text \<open>
  \<^verbatim>\<open>struct.unpack("<" + "i" * n, buf)\<close>: for \<open>n \<le> 0\<close> the format is \<^verbatim>\<open>"<"\<close>, of size 0.
\<close>

definition unpack_i_times :: "int \<Rightarrow> bytes \<Rightarrow> error + int list" where
  "unpack_i_times n bs =
     (if length bs \<noteq> 4 * nat n then Inl StructError else Inr (int32s bs))"

text \<open>
  \<^verbatim>\<open>int(x / k)\<close> of the source: true division followed by truncation towards zero.
  The operands are 32-bit values and \<open>k\<close> is 2 or 4, so the quotient is exact in
  double precision and the result is the integer quotient truncated towards zero.
\<close>

definition int_truediv :: "int \<Rightarrow> int \<Rightarrow> int" where
  "int_truediv x k = x sdiv k"

text \<open>
  \<^verbatim>\<open>bytes.decode("utf-16-le")\<close> with the default strict error handling: two bytes make
  a code unit, a high surrogate must be followed by a low surrogate, and a truncated
  unit or an unpaired surrogate raises \<^verbatim>\<open>UnicodeDecodeError\<close>.
\<close>

fun decode_utf16_le :: "bytes \<Rightarrow> error + pystr" where
  "decode_utf16_le [] = Inr []"
| "decode_utf16_le [b] = Inl UnicodeDecodeError"
| "decode_utf16_le (b0 # b1 # bs) =
     (let u = unat b0 + 256 * unat b1 in
      if u < 0xD800 \<or> 0xDFFF < u then
        (case decode_utf16_le bs of Inl e \<Rightarrow> Inl e | Inr cs \<Rightarrow> Inr (u # cs))
      else if u \<le> 0xDBFF then
        (case bs of
           b2 # b3 # bs' \<Rightarrow>
             (let v = unat b2 + 256 * unat b3 in
              if 0xDC00 \<le> v \<and> v \<le> 0xDFFF then
                (case decode_utf16_le bs' of
                   Inl e \<Rightarrow> Inl e
                 | Inr cs \<Rightarrow> Inr ((0x10000 + (u - 0xD800) * 0x400 + (v - 0xDC00)) # cs))
              else Inl UnicodeDecodeError)
         | _ \<Rightarrow> Inl UnicodeDecodeError)
      else Inl UnicodeDecodeError)"

text \<open>
  Slicing of a sequence, \<^verbatim>\<open>xs[a:b]\<close> and \<^verbatim>\<open>xs[a:]\<close>: a negative bound counts from the
  end, and every bound is clamped to the sequence.
\<close>

definition slice_bound :: "nat \<Rightarrow> int \<Rightarrow> nat" where
  "slice_bound n i =
     (if i < 0 then (if i + int n < 0 then 0 else nat (i + int n))
      else if int n < i then n else nat i)"

definition py_slice :: "'a list \<Rightarrow> int \<Rightarrow> int option \<Rightarrow> 'a list" where
  "py_slice xs a b =
     (let n = length xs; lo = slice_bound n a;
          hi = (case b of None \<Rightarrow> n | Some j \<Rightarrow> slice_bound n j)
      in take (hi - lo) (drop lo xs))"

subsection \<open>The stream\<close>

text \<open>
  The binary stream is the file object that \<^verbatim>\<open>from_file\<close> opens with mode \<^verbatim>\<open>"rb"\<close>: its
  bytes and the current position. \<^verbatim>\<open>read(n)\<close> returns at most \<open>n\<close> bytes from the
  position and advances by what it returned; \<^verbatim>\<open>read(-1)\<close> returns everything up to the
  end, and a size below \<open>-1\<close> raises \<^verbatim>\<open>ValueError\<close>.
\<close>

record stream =
  data :: bytes
  pos :: nat

definition seek :: "stream \<Rightarrow> nat \<Rightarrow> stream" where
  "seek s p = s\<lparr>pos := p\<rparr>"

definition tell :: "stream \<Rightarrow> nat" where
  "tell s = pos s"

definition read :: "stream \<Rightarrow> int \<Rightarrow> error + (bytes \<times> stream)" where
  "read s n =
     (if n < - 1 then Inl ValueError
      else
        let rest = drop (pos s) (data s);
            bs = (if n = - 1 then rest else take (nat n) rest)
        in Inr (bs, s\<lparr>pos := pos s + length bs\<rparr>))"

subsection \<open>Metadata\<close>

text \<open>
  \<^verbatim>\<open>metadata\<close> is a \<^verbatim>\<open>dict\<close> from names to values of several Python types: a \<^verbatim>\<open>str\<close>,
  an \<^verbatim>\<open>int\<close>, a tuple of \<^verbatim>\<open>int\<close> (the chapter offsets) or a list of \<^verbatim>\<open>str\<close> (the
  chapter titles).
\<close>

datatype pyval = PyStr pystr | PyInt int | PyTuple "int list" | PyList "pystr list"

type_synonym metadata = "string \<rightharpoonup> pyval"

definition BLOCK_TYPE_DICT :: "int \<rightharpoonup> string" where
  "BLOCK_TYPE_DICT = map_of
     [(0x01, ''category''),
      (0x02, ''title''),
      (0x03, ''author''),
      (0x04, ''year''),
      (0x05, ''month''),
      (0x06, ''date''),
      (0x07, ''book_type''),
      (0x08, ''publisher''),
      (0x09, ''retailer''),
      (0x0b, ''full_length''),
      (0x83, ''chapter_offsets''),
      (0x84, ''chapter_titles_and_body''),
      (0x81, ''end_of_body''),
      (0x82, ''cover''),
      (0x87, ''page_offset''),
      (0x0c, ''end_of_file'')]"

text \<open>
  The dictionary literal of line 73, \<^verbatim>\<open>{0x01: "Novel", "0x02": "Comic"}\<close>: its first key
  is the \<^verbatim>\<open>int\<close> 1 and its second key is the \<^verbatim>\<open>str\<close> \<^verbatim>\<open>"0x02"\<close>.
\<close>

datatype pykey = KInt int | KStr string

definition category_dict :: "pykey \<rightharpoonup> pystr" where
  "category_dict = map_of [(KInt 0x01, py_str ''Novel''), (KStr ''0x02'', py_str ''Comic'')]"

text \<open>What one turn of a \<^verbatim>\<open>while True\<close> loop does: leave the loop or go round again.\<close>

datatype 'a step = Break 'a | Continue 'a

subsection \<open>\<^verbatim>\<open>read_metadata\<close>\<close>

text \<open>Lines 67 to 74: the branch of block type \<^verbatim>\<open>0x01\<close>.\<close>

definition category_block :: "stream \<Rightarrow> metadata \<Rightarrow> error + (stream \<times> metadata) step" where
  "category_block s metadata =
     (case read s 5 of
        Inl e \<Rightarrow> Inl e
      | Inr (buf, s') \<Rightarrow>
          (case unpack_hbh buf of
             Inl e \<Rightarrow> Inl e
           | Inr (h1, category_byte, h2) \<Rightarrow>
               (case category_dict (KInt category_byte) of
                  None \<Rightarrow> Inl KeyError
                | Some c \<Rightarrow> Inr (Continue (s', metadata(''category'' \<mapsto> PyStr c))))))"

text \<open>
  Lines 75 to 82: the branch of the block types in \<^verbatim>\<open>range(0x02, 0x0a)\<close>. Every such type
  is a key of \<open>BLOCK_TYPE_DICT\<close> (lemma \<open>BLOCK_TYPE_DICT_text\<close> below), so the
  \<open>None\<close> case is never taken.
\<close>

definition text_block ::
  "string option \<Rightarrow> stream \<Rightarrow> metadata \<Rightarrow> error + (stream \<times> metadata) step" where
  "text_block block_type s metadata =
     (case read s 2 of
        Inl e \<Rightarrow> Inl e
      | Inr (buf, s1) \<Rightarrow>
          (case unpack_bb buf of
             Inl e \<Rightarrow> Inl e
           | Inr (b1, raw_length) \<Rightarrow>
               (case read s1 (raw_length - 5) of
                  Inl e \<Rightarrow> Inl e
                | Inr (raw, s2) \<Rightarrow>
                    (case decode_utf16_le raw of
                       Inl e \<Rightarrow> Inl e
                     | Inr content \<Rightarrow>
                         (case block_type of
                            None \<Rightarrow> Inr (Continue (s2, metadata))
                          | Some k \<Rightarrow> Inr (Continue (s2, metadata(k \<mapsto> PyStr content))))))))"

text \<open>Lines 83 to 88: the branch of block type \<^verbatim>\<open>0x0b\<close>.\<close>

definition full_length_block :: "stream \<Rightarrow> metadata \<Rightarrow> error + (stream \<times> metadata) step" where
  "full_length_block s metadata =
     (case read s 6 of
        Inl e \<Rightarrow> Inl e
      | Inr (buf, s') \<Rightarrow>
          (case unpack_hi buf of
             Inl e \<Rightarrow> Inl e
           | Inr (h1, full_length) \<Rightarrow>
               Inr (Continue (s', metadata(''full_length'' \<mapsto> PyInt full_length)))))"

text \<open>Lines 89 to 98: the branch of block type \<^verbatim>\<open>0x83\<close>.\<close>

definition chapter_offsets_block ::
  "stream \<Rightarrow> metadata \<Rightarrow> error + (stream \<times> metadata) step" where
  "chapter_offsets_block s metadata =
     (case read s 15 of
        Inl e \<Rightarrow> Inl e
      | Inr (buf, s1) \<Rightarrow>
          (case unpack_hibii buf of
             Inl e \<Rightarrow> Inl e
           | Inr (h1, i1, b1, i2, raw_ch_no) \<Rightarrow>
               if i1 \<noteq> i2 then Inl AssertionError
               else
                 let number_of_chapters = int_truediv (raw_ch_no - 9) 4 in
                 (case read s1 (4 * number_of_chapters) of
                    Inl e \<Rightarrow> Inl e
                  | Inr (raw, s2) \<Rightarrow>
                      (case unpack_i_times number_of_chapters raw of
                         Inl e \<Rightarrow> Inl e
                       | Inr chapter_offsets \<Rightarrow>
                           Inr (Continue (s2, metadata(''chapter_offsets'' \<mapsto>
                             PyTuple (map (\<lambda>x. int_truediv x 2) chapter_offsets))))))))"

text \<open>
  Lines 107 to 110: the loop over the chapter titles. Every turn reads one byte or fails,
  so the loop ends.
\<close>

function read_titles :: "stream \<Rightarrow> int \<Rightarrow> pystr list \<Rightarrow> error + (stream \<times> pystr list)" where
  "read_titles s end content =
     (if int (tell s) < end then
        (case read s 1 of
           Inl e \<Rightarrow> Inl e
         | Inr (buf, s1) \<Rightarrow>
             (case unpack_b buf of
                Inl e \<Rightarrow> Inl e
              | Inr ch_title_len \<Rightarrow>
                  (case read s1 ch_title_len of
                     Inl e \<Rightarrow> Inl e
                   | Inr (raw, s2) \<Rightarrow>
                       (case decode_utf16_le raw of
                          Inl e \<Rightarrow> Inl e
                        | Inr title \<Rightarrow> read_titles s2 end (content @ [title])))))
      else Inr (s, content))"
  by pat_completeness auto

termination read_titles
proof (relation "measure (\<lambda>(s, e, c). length (data s) - pos s)", goal_cases)
  case 1
  show ?case by simp
next
  case (2 s e content x2 buf s1 ch_title_len x2b raw s2 title)
  from 2 have len: "length buf = 1"
    by (simp add: unpack_b_def split: if_splits)
  from 2 len
  have s1: "data s1 = data s" "pos s1 = pos s + 1" "pos s < length (data s)"
    by (auto simp: read_def Let_def min_def max_def split: if_splits)
  from 2
  have s2: "data s2 = data s1" "pos s1 \<le> pos s2" "pos s2 \<le> max (pos s1) (length (data s1))"
    by (auto simp: read_def Let_def min_def max_def split: if_splits)
  from s1 s2 show ?case by simp
qed

text \<open>Lines 99 to 113: the branch of block type \<^verbatim>\<open>0x84\<close>, which leaves the loop.\<close>

definition chapter_titles_block ::
  "stream \<Rightarrow> metadata \<Rightarrow> error + (stream \<times> metadata) step" where
  "chapter_titles_block s metadata =
     (case read s 15 of
        Inl e \<Rightarrow> Inl e
      | Inr (buf, s1) \<Rightarrow>
          (case unpack_hibii buf of
             Inl e \<Rightarrow> Inl e
           | Inr (h1, i1, b1, i2, title_len) \<Rightarrow>
               if i1 \<noteq> i2 then Inl AssertionError
               else
                 let end = int (tell s1) + title_len - 9 in
                 (case read_titles s1 end [] of
                    Inl e \<Rightarrow> Inl e
                  | Inr (s2, content) \<Rightarrow>
                      Inr (Break (s2, metadata(''chapter_titles'' \<mapsto> PyList content))))))"

text \<open>
  Lines 63 to 114: one turn of the loop. A block type that no branch of the
  \<^verbatim>\<open>if\<close>/\<^verbatim>\<open>elif\<close> chain takes falls through to the end of the loop body.
\<close>

definition read_metadata_block ::
  "stream \<Rightarrow> metadata \<Rightarrow> error + (stream \<times> metadata) step" where
  "read_metadata_block s metadata =
     (case read s 3 of
        Inl e \<Rightarrow> Inl e
      | Inr (buf, s') \<Rightarrow>
          (case unpack_cH buf of
             Inl e \<Rightarrow> Inl e
           | Inr (splitter, block_type_byte) \<Rightarrow>
               if splitter \<noteq> [0x23] then Inl AssertionError
               else
                 let block_type = BLOCK_TYPE_DICT block_type_byte in
                 if block_type_byte = 0x01 then category_block s' metadata
                 else if 0x02 \<le> block_type_byte \<and> block_type_byte < 0x0a
                   then text_block block_type s' metadata
                 else if block_type_byte = 0x0b then full_length_block s' metadata
                 else if block_type_byte = 0x83 then chapter_offsets_block s' metadata
                 else if block_type_byte = 0x84 then chapter_titles_block s' metadata
                 else Inr (Continue (s', metadata))))"

text \<open>Lines 59 to 114: the \<^verbatim>\<open>while True\<close> loop.\<close>

function read_metadata_loop :: "stream \<Rightarrow> metadata \<Rightarrow> error + (stream \<times> metadata)" where
  "read_metadata_loop s metadata =
     (case read_metadata_block s metadata of
        Inl e \<Rightarrow> Inl e
      | Inr (Break r) \<Rightarrow> Inr r
      | Inr (Continue (s', metadata')) \<Rightarrow> read_metadata_loop s' metadata')"
  by pat_completeness auto

termination read_metadata_loop
proof (relation "measure (\<lambda>(s, m). length (data s) - pos s)", goal_cases)
  case 1
  show ?case by simp
next
  case (2 s metadata b x2 s' metadata')
  define adv where "adv a b \<longleftrightarrow>
      data b = data a \<and> pos a \<le> pos b \<and> pos b \<le> max (pos a) (length (data a))"
    for a b :: stream
  have rd: "adv a b" if "read a n = Inr (bs, b)" for a n bs b
    using that by (auto simp: adv_def read_def Let_def min_def max_def split: if_splits)
  have rf: "adv a a" for a
    by (simp add: adv_def)
  have tr: "adv a c" if "adv a b" "adv b c" for a b c
    using that by (auto simp: adv_def)
  have b1: "adv a b" if "category_block a m = Inr (Continue (b, m'))" for a b m m'
    using that by (auto simp: category_block_def split: sum.splits prod.splits option.splits dest: rd)
  have b2: "adv a b" if "text_block bt a m = Inr (Continue (b, m'))" for a b m m' bt
    using that by (auto simp: text_block_def split: sum.splits prod.splits option.splits
        dest!: rd intro: tr)
  have b3: "adv a b" if "full_length_block a m = Inr (Continue (b, m'))" for a b m m'
    using that by (auto simp: full_length_block_def split: sum.splits prod.splits dest: rd)
  have b4: "adv a b" if "chapter_offsets_block a m = Inr (Continue (b, m'))" for a b m m'
    using that by (auto simp: chapter_offsets_block_def Let_def
        split: sum.splits prod.splits if_splits dest!: rd intro: tr)
  have b5: "adv a b" if "chapter_titles_block a m = Inr (Continue (b, m'))" for a b m m'
    using that by (auto simp: chapter_titles_block_def Let_def split: sum.splits prod.splits if_splits)
  from 2 obtain buf s1 where r3: "read s 3 = Inr (buf, s1)" and l3: "length buf = 3"
    and nxt: "adv s1 s'"
    by (auto simp: read_metadata_block_def unpack_cH_def Let_def
        split: sum.splits prod.splits if_splits dest: b1 b2 b3 b4 b5 intro: that rd rf)
  from r3 l3 have s1: "data s1 = data s" "pos s1 = pos s + 3" "pos s1 \<le> length (data s)"
    by (auto simp: read_def Let_def min_def max_def split: if_splits)
  from nxt s1 show ?case by (auto simp: adv_def)
qed

text \<open>
  Lines 43 to 120. The result is the returned pair and the stream as the call leaves it.
  \<^verbatim>\<open>offset\<close> is \<open>None\<close> (no seek), non-negative (seek there) or negative (seek to 0).
\<close>

definition read_metadata ::
  "stream \<Rightarrow> int option \<Rightarrow> error + ((metadata \<times> nat) \<times> stream)" where
  "read_metadata stream offset =
     (let s0 = (case offset of
                  None \<Rightarrow> stream
                | Some off \<Rightarrow> if 0 \<le> off then seek stream (nat off) else seek stream 0)
      in case read s0 4 of
           Inl e \<Rightarrow> Inl e
         | Inr (magic, s1) \<Rightarrow>
             if magic \<noteq> [0x89, 0x9b, 0x9a, 0xde] then Inl ValueError
             else
               (case read_metadata_loop s1 Map.empty of
                  Inl e \<Rightarrow> Inl e
                | Inr (s2, metadata) \<Rightarrow>
                    let metadata' = metadata(''body_offset'' \<mapsto> PyInt (int (tell s2))) in
                    (case metadata' ''title'' of
                       None \<Rightarrow> Inl KeyError
                     | Some t \<Rightarrow>
                         (case metadata' ''category'' of
                            None \<Rightarrow> Inl KeyError
                          | Some c \<Rightarrow> Inr ((metadata', tell s2), s2)))))"

text \<open>
  Line 118: the condition of the warning \<^verbatim>\<open>"Only support Novel!"\<close>, for a metadata that
  has a category.
\<close>

definition warns_unsupported :: "metadata \<Rightarrow> bool" where
  "warns_unsupported metadata \<longleftrightarrow> metadata ''category'' \<noteq> Some (PyStr (py_str ''Novel''))"

text \<open>
  What the category entry of a metadata can be while \<^verbatim>\<open>read_metadata\<close> runs: absent, or
  the string \<^verbatim>\<open>"Novel"\<close>.
\<close>

definition category_ok :: "metadata \<Rightarrow> bool" where
  "category_ok md \<longleftrightarrow>
     md ''category'' = None \<or> md ''category'' = Some (PyStr (py_str ''Novel''))"

subsection \<open>\<^verbatim>\<open>read_content\<close>\<close>

text \<open>
  Lines 143 to 148: the payload of a control record that does not end the body. The types
  \<^verbatim>\<open>0xf1\<close> and \<^verbatim>\<open>0x0a\<close> have a payload of 18 and of 6 bytes; any other type has none.
\<close>

definition control_payload :: "int \<Rightarrow> stream \<Rightarrow> error + stream" where
  "control_payload end_type s =
     (if end_type = 0xf1 then
        (case read s 18 of
           Inl e \<Rightarrow> Inl e
         | Inr (buf, s') \<Rightarrow> (case unpack_h16c buf of Inl e \<Rightarrow> Inl e | Inr hc \<Rightarrow> Inr s'))
      else if end_type = 0x0a then
        (case read s 6 of
           Inl e \<Rightarrow> Inl e
         | Inr (buf, s') \<Rightarrow> (case unpack_hi buf of Inl e \<Rightarrow> Inl e | Inr hi \<Rightarrow> Inr s'))
      else Inr s)"

text \<open>
  Lines 138 to 161: one turn of the loop, on the stream, the current \<^verbatim>\<open>splitter\<close> and the
  two lists. The chain has no \<^verbatim>\<open>else\<close>: with a splitter that is neither \<^verbatim>\<open>b'#'\<close> nor
  \<^verbatim>\<open>b'$'\<close> (the empty \<^verbatim>\<open>bytes\<close> at the end of the stream included) the turn changes
  nothing and the loop goes round again.
\<close>

type_synonym content_state = "stream \<times> bytes \<times> int list \<times> bytes list"

definition read_content_turn ::
  "(bytes \<Rightarrow> error + bytes) \<Rightarrow> content_state \<Rightarrow> error + content_state step" where
  "read_content_turn dec st =
     (case st of (s, splitter, rnd_lst, content_list) \<Rightarrow>
      if splitter = [0x23] then
        (case read s 2 of
           Inl e \<Rightarrow> Inl e
         | Inr (buf, s1) \<Rightarrow>
             (case unpack_h buf of
                Inl e \<Rightarrow> Inl e
              | Inr end_type \<Rightarrow>
                  if end_type = 0x81 then Inr (Break (s1, splitter, rnd_lst, content_list))
                  else
                    (case control_payload end_type s1 of
                       Inl e \<Rightarrow> Inl e
                     | Inr s2 \<Rightarrow>
                         (case read s2 1 of
                            Inl e \<Rightarrow> Inl e
                          | Inr (splitter', s3) \<Rightarrow>
                              Inr (Continue (s3, splitter', rnd_lst, content_list))))))
      else if splitter = [0x24] then
        (case read s 8 of
           Inl e \<Rightarrow> Inl e
         | Inr (buf, s1) \<Rightarrow>
             (case unpack_ii buf of
                Inl e \<Rightarrow> Inl e
              | Inr (i, raw_block_length) \<Rightarrow>
                  (case read s1 (raw_block_length - 9) of
                     Inl e \<Rightarrow> Inl e
                   | Inr (block, s2) \<Rightarrow>
                       (case dec block of
                          Inl e \<Rightarrow> Inl e
                        | Inr plain \<Rightarrow>
                            (case read s2 1 of
                               Inl e \<Rightarrow> Inl e
                             | Inr (splitter', s3) \<Rightarrow>
                                 Inr (Continue (s3, splitter', rnd_lst @ [i],
                                                content_list @ [plain])))))))
      else Inr (Continue (s, splitter, rnd_lst, content_list)))"

text \<open>
  Lines 137 to 161: the \<^verbatim>\<open>while True\<close> loop. It need not end, so its result is an
  option: \<open>None\<close> is a loop that never returns.
\<close>

partial_function (option) read_content_loop ::
  "(bytes \<Rightarrow> error + bytes) \<Rightarrow> content_state \<Rightarrow> (error + content_state) option" where
  "read_content_loop dec st =
     (case read_content_turn dec st of
        Inl e \<Rightarrow> Some (Inl e)
      | Inr (Break r) \<Rightarrow> Some (Inr r)
      | Inr (Continue st') \<Rightarrow> read_content_loop dec st')"

declare read_content_loop.simps [code]

text \<open>Lines 165 to 171: the trailer after the end-of-body record.\<close>

definition read_trailer ::
  "stream \<Rightarrow> int list \<Rightarrow> bytes list \<Rightarrow> error + ((pystr \<times> nat) \<times> stream)" where
  "read_trailer s rnd_lst content_list =
     (case read s 15 of
        Inl e \<Rightarrow> Inl e
      | Inr (buf, s1) \<Rightarrow>
          (case unpack_hibii buf of
             Inl e \<Rightarrow> Inl e
           | Inr (h, i1, b, i2, raw_n_block) \<Rightarrow>
               let number_of_blocks = int_truediv (raw_n_block - 9) 4 in
               (case read s1 (4 * number_of_blocks) of
                  Inl e \<Rightarrow> Inl e
                | Inr (raw, s2) \<Rightarrow>
                    (case unpack_i_times number_of_blocks raw of
                       Inl e \<Rightarrow> Inl e
                     | Inr rnd_lst2 \<Rightarrow>
                         if rnd_lst \<noteq> rnd_lst2 then Inl AssertionError
                         else
                           (case decode_utf16_le (concat content_list) of
                              Inl e \<Rightarrow> Inl e
                            | Inr content \<Rightarrow> Inr ((content, tell s2), s2))))))"

text \<open>
  Lines 123 to 171. With a negative \<^verbatim>\<open>offset\<close> the body is located by
  \<^verbatim>\<open>read_metadata\<close>.
\<close>

definition read_content ::
  "(bytes \<Rightarrow> error + bytes) \<Rightarrow> stream \<Rightarrow> int option \<Rightarrow>
     (error + ((pystr \<times> nat) \<times> stream)) option" where
  "read_content dec stream offset =
     (case (case offset of
              None \<Rightarrow> Inr stream
            | Some off \<Rightarrow>
                if 0 \<le> off then Inr (seek stream (nat off))
                else (case read_metadata stream (Some (- 1)) of
                        Inl e \<Rightarrow> Inl e
                      | Inr ((m, off'), s') \<Rightarrow> Inr (seek s' off'))) of
        Inl e \<Rightarrow> Some (Inl e)
      | Inr s0 \<Rightarrow>
          (case read s0 1 of
             Inl e \<Rightarrow> Some (Inl e)
           | Inr (splitter, s1) \<Rightarrow>
               (case read_content_loop dec (s1, splitter, [], []) of
                  None \<Rightarrow> None
                | Some (Inl e) \<Rightarrow> Some (Inl e)
                | Some (Inr (s2, splitter', rnd_lst, content_list)) \<Rightarrow>
                    Some (read_trailer s2 rnd_lst content_list))))"

subsection \<open>\<^verbatim>\<open>read_cover\<close>\<close>

text \<open>
  Lines 174 to 198. The cover is \<open>None\<close> or the bytes read. With a negative
  \<^verbatim>\<open>offset\<close> the position is found by \<^verbatim>\<open>read_content\<close>, which may not return.
\<close>

definition read_cover ::
  "(bytes \<Rightarrow> error + bytes) \<Rightarrow> stream \<Rightarrow> int option \<Rightarrow>
     (error + ((bytes option \<times> nat) \<times> stream)) option" where
  "read_cover dec stream offset =
     (case (case offset of
              None \<Rightarrow> Some (Inr stream)
            | Some off \<Rightarrow>
                if 0 \<le> off then Some (Inr (seek stream (nat off)))
                else (case read_content dec stream (Some (- 1)) of
                        None \<Rightarrow> None
                      | Some (Inl e) \<Rightarrow> Some (Inl e)
                      | Some (Inr ((c, off'), s')) \<Rightarrow> Some (Inr (seek s' off')))) of
        None \<Rightarrow> None
      | Some (Inl e) \<Rightarrow> Some (Inl e)
      | Some (Inr s0) \<Rightarrow>
          Some (case read s0 1 of
             Inl e \<Rightarrow> Inl e
           | Inr (splitter, s1) \<Rightarrow>
               if splitter = [] then Inr ((None, tell s1), s1)
               else
                 (case read s1 2 of
                    Inl e \<Rightarrow> Inl e
                  | Inr (buf, s2) \<Rightarrow>
                      (case unpack_h buf of
                         Inl e \<Rightarrow> Inl e
                       | Inr next_type \<Rightarrow>
                           if next_type = 0x82 then
                             (case read s2 16 of
                                Inl e \<Rightarrow> Inl e
                              | Inr (hdr, s3) \<Rightarrow>
                                  (case unpack_bbbibii hdr of
                                     Inl e \<Rightarrow> Inl e
                                   | Inr (b1, b2, b3, i1, b4, i2, raw_cover_length) \<Rightarrow>
                                       (case read s3 (raw_cover_length - 9) of
                                          Inl e \<Rightarrow> Inl e
                                        | Inr (cover, s4) \<Rightarrow>
                                            Inr ((Some cover, tell s4), s4))))
                           else Inr ((None, tell s2), s2)))))"

subsection \<open>\<^verbatim>\<open>from_stream\<close>\<close>

datatype umd_chapter = Chapter (title_of: pystr) (content_of: pystr)

text \<open>
  Lines 226 to 232: the loop over \<^verbatim>\<open>enumerate(metadata["chapter_titles"])\<close>, from index
  \<open>i\<close> on. \<open>offsets\<close> is the tuple \<^verbatim>\<open>metadata["chapter_offsets"]\<close>; the index \<open>i\<close> is
  never negative, so \<^verbatim>\<open>offsets[i]\<close> raises \<^verbatim>\<open>IndexError\<close> exactly when
  \<open>length offsets \<le> i\<close>.
\<close>

fun build_chapters :: "int list \<Rightarrow> pystr \<Rightarrow> nat \<Rightarrow> pystr list \<Rightarrow> error + umd_chapter list" where
  "build_chapters offsets content i [] = Inr []"
| "build_chapters offsets content i (ch_title # titles) =
     (if i + 1 = length offsets then
        (case build_chapters offsets content (i + 1) titles of
           Inl e \<Rightarrow> Inl e
         | Inr ch_list \<Rightarrow> Inr (Chapter ch_title (py_slice content (offsets ! i) None) # ch_list))
      else if length offsets \<le> i then Inl IndexError
      else
        (case build_chapters offsets content (i + 1) titles of
           Inl e \<Rightarrow> Inl e
         | Inr ch_list \<Rightarrow>
             Inr (Chapter ch_title
                    (py_slice content (offsets ! i) (Some (offsets ! (i + 1)))) # ch_list)))"

text \<open>
  The object that \<^verbatim>\<open>UMDFile(chapters=ch_list, **metadata)\<close> builds: the named parameters
  of \<^verbatim>\<open>__init__\<close> take the entries of \<^verbatim>\<open>metadata\<close> with their names, the other entries
  go to the attribute \<^verbatim>\<open>metadata\<close>. No entry is named \<^verbatim>\<open>publish_date\<close> or \<^verbatim>\<open>cover\<close>,
  and \<^verbatim>\<open>from_stream\<close> does not pass the cover it has read.
\<close>

record umdfile =
  title :: "pyval option"
  author :: "pyval option"
  category :: "pyval option"
  publish_date :: "pyval option"
  publisher :: "pyval option"
  retailer :: "pyval option"
  cover :: "bytes option"
  chapters :: "umd_chapter list"
  metadata :: metadata

definition UMDFile :: "umd_chapter list \<Rightarrow> metadata \<Rightarrow> umdfile" where
  "UMDFile ch_list md =
     \<lparr>title = md ''title'', author = md ''author'', category = md ''category'',
      publish_date = None, publisher = md ''publisher'', retailer = md ''retailer'',
      cover = None, chapters = ch_list,
      metadata = md |` (- {''title'', ''author'', ''category'', ''publisher'', ''retailer''})\<rparr>"

text \<open>
  Lines 221 to 233. \<^verbatim>\<open>read_metadata\<close> always stores \<^verbatim>\<open>chapter_titles\<close> as a list and,
  when the block is there, \<^verbatim>\<open>chapter_offsets\<close> as a tuple; a missing entry is a
  \<^verbatim>\<open>KeyError\<close>, raised for the offsets at the first title.
\<close>

definition from_stream :: "(bytes \<Rightarrow> error + bytes) \<Rightarrow> stream \<Rightarrow> (error + umdfile) option" where
  "from_stream dec stream =
     (case read_metadata stream None of
        Inl e \<Rightarrow> Some (Inl e)
      | Inr ((md, offset1), s1) \<Rightarrow>
          (case read_content dec s1 (Some (int offset1)) of
             None \<Rightarrow> None
           | Some (Inl e) \<Rightarrow> Some (Inl e)
           | Some (Inr ((content, offset2), s2)) \<Rightarrow>
               (case read_cover dec s2 (Some (int offset2)) of
                  None \<Rightarrow> None
                | Some (Inl e) \<Rightarrow> Some (Inl e)
                | Some (Inr ((cov, offset3), s3)) \<Rightarrow>
                    (case md ''chapter_titles'' of
                       Some (PyList titles) \<Rightarrow>
                         (case (if titles = [] then Inr []
                                else case md ''chapter_offsets'' of
                                       Some (PyTuple offsets) \<Rightarrow>
                                         build_chapters offsets content 0 titles
                                     | _ \<Rightarrow> Inl KeyError) of
                            Inl e \<Rightarrow> Some (Inl e)
                          | Inr ch_list \<Rightarrow> Some (Inr (UMDFile ch_list md)))
                     | _ \<Rightarrow> Some (Inl KeyError)))))"

subsection \<open>Layout of a stream\<close>

text \<open>
  The notions the properties below are stated with: the bytes from the position of a
  stream on, and the stream moved forward.
\<close>

definition remaining :: "stream \<Rightarrow> bytes" where
  "remaining s = drop (pos s) (data s)"

definition advance :: "stream \<Rightarrow> nat \<Rightarrow> stream" where
  "advance s n = s\<lparr>pos := pos s + n\<rparr>"

text \<open>
  The records of a body as \<^verbatim>\<open>read_content\<close> parses them. A control record is \<^verbatim>\<open>#\<close>, a
  16-bit type other than \<^verbatim>\<open>0x81\<close> and the payload of that type; a segment record is
  \<^verbatim>\<open>$\<close>, a header of 8 bytes (the sequence index and the encoded length, which is the
  length of the block plus 9) and the compressed block.
\<close>

datatype body_record = Control bytes bytes | Segment bytes bytes

fun record_bytes :: "body_record \<Rightarrow> bytes" where
  "record_bytes (Control ty payload) = 0x23 # ty @ payload"
| "record_bytes (Segment hdr block) = 0x24 # hdr @ block"

fun wf_record :: "body_record \<Rightarrow> bool" where
  "wf_record (Control ty payload) \<longleftrightarrow>
     length ty = 2 \<and> int16 ty \<noteq> 0x81 \<and>
     length payload = (if int16 ty = 0xf1 then 18 else if int16 ty = 0x0a then 6 else 0)"
| "wf_record (Segment hdr block) \<longleftrightarrow>
     length hdr = 8 \<and> int32 (drop 4 hdr) = int (length block) + 9"

text \<open>The sequence indices and the compressed blocks of the segments, in stream order.\<close>

fun segment_indices :: "body_record list \<Rightarrow> int list" where
  "segment_indices [] = []"
| "segment_indices (Control ty payload # rs) = segment_indices rs"
| "segment_indices (Segment hdr block # rs) = int32 (take 4 hdr) # segment_indices rs"

fun segment_blocks :: "body_record list \<Rightarrow> bytes list" where
  "segment_blocks [] = []"
| "segment_blocks (Control ty payload # rs) = segment_blocks rs"
| "segment_blocks (Segment hdr block # rs) = block # segment_blocks rs"

section \<open>Properties of the decoder\<close>

text \<open>
  The specification names four classes of errors that the source does not define. They
  are read as the exceptions the source raises in the situations the specification
  describes: \<^verbatim>\<open>FormatError\<close> is \<^verbatim>\<open>ValueError\<close> (wrong file header) or \<^verbatim>\<open>struct.error\<close>
  (premature end of the stream), \<^verbatim>\<open>ConsistencyError\<close> is \<^verbatim>\<open>AssertionError\<close>, \<^verbatim>\<open>DataError\<close>
  is the \<^verbatim>\<open>IndexError\<close> of the chapter loop, \<^verbatim>\<open>DecompressionError\<close> is \<^verbatim>\<open>zlib.error\<close>.
\<close>

subsection \<open>Evaluation\<close>

lemmas unpack_defs = unpack_cH_def unpack_hbh_def unpack_bb_def unpack_hi_def unpack_hibii_def
  unpack_b_def unpack_h_def unpack_h16c_def unpack_ii_def unpack_bbbibii_def unpack_i_times_def
  int8_def int16_def uint16_def int32_def signed_def int_truediv_def

lemmas stream_defs = read_def seek_def tell_def Let_def

subsection \<open>The content loop on a splitter that is neither \<^verbatim>\<open>#\<close> nor \<^verbatim>\<open>$\<close>\<close>

lemma read_content_turn_stuck:
  "splitter \<noteq> [0x23] \<Longrightarrow> splitter \<noteq> [0x24] \<Longrightarrow>
   read_content_turn dec (s, splitter, rnd_lst, content_list) =
     Inr (Continue (s, splitter, rnd_lst, content_list))"
  by (simp add: read_content_turn_def)

lemma read_content_loop_returns_splitter:
  assumes "read_content_loop dec st = Some y"
  shows "fst (snd st) = [0x23] \<or> fst (snd st) = [0x24]"
proof (rule read_content_loop.raw_induct
    [where P = "\<lambda>d st y. fst (snd st) = [0x23] \<or> fst (snd st) = [0x24]", OF _ assms])
  fix loop :: "(bytes \<Rightarrow> error + bytes) \<Rightarrow> content_state \<Rightarrow> (error + content_state) option"
    and d st r
  assume IH: "\<And>d st r. loop d st = Some r \<Longrightarrow> fst (snd st) = [0x23] \<or> fst (snd st) = [0x24]"
    and eq: "(case read_content_turn d st of
                Inl e \<Rightarrow> Some (Inl e)
              | Inr (Break r) \<Rightarrow> Some (Inr r)
              | Inr (Continue st') \<Rightarrow> loop d st') = Some r"
  show "fst (snd st) = [0x23] \<or> fst (snd st) = [0x24]"
  proof (rule ccontr)
    assume n: "\<not> ?thesis"
    obtain s splitter rnd_lst content_list where st: "st = (s, splitter, rnd_lst, content_list)"
      by (cases st) auto
    from n st have "read_content_turn d st = Inr (Continue st)"
      by (simp add: read_content_turn_stuck)
    with eq have "loop d st = Some r" by simp
    from IH [OF this] n show False by simp
  qed
qed

lemma read_content_loop_stuck:
  "splitter \<noteq> [0x23] \<Longrightarrow> splitter \<noteq> [0x24] \<Longrightarrow>
   read_content_loop dec (s, splitter, rnd_lst, content_list) = None"
  using read_content_loop_returns_splitter [of dec "(s, splitter, rnd_lst, content_list)"]
  by (cases "read_content_loop dec (s, splitter, rnd_lst, content_list)") auto

text \<open>
  Claim C5. The claim: on every finite stream \<^verbatim>\<open>read_content\<close> returns the body or
  raises at once, and it always makes progress on a record whose framing byte is neither
  \<^verbatim>\<open>#\<close> nor \<^verbatim>\<open>$\<close>. The code does not: on the one-byte stream \<^verbatim>\<open>b"\x00"\<close>, read from
  offset 0, the loop of lines 137 to 161 takes neither branch, reads nothing more and
  goes round for ever, so the call never returns (the value \<open>None\<close>), whatever
  \<^verbatim>\<open>zlib.decompress\<close> does.
\<close>

theorem read_content_never_returns:
  "read_content dec \<lparr>data = [0x00], pos = 0\<rparr> (Some 0) = None"
  by (simp add: read_content_def stream_defs read_content_loop_stuck)

text \<open>
  The same happens at the end of the stream, where \<^verbatim>\<open>read(1)\<close> returns the empty
  \<^verbatim>\<open>bytes\<close>: a premature end of the stream is not reported either.
\<close>

lemma read_content_never_returns_at_end:
  "length (data s) \<le> p \<Longrightarrow> read_content dec s (Some (int p)) = None"
  by (simp add: read_content_def stream_defs read_content_loop_stuck)

subsection \<open>The category block\<close>

text \<open>
  Claim C1. The claim: the category byte 2 decodes to Comic, and \<^verbatim>\<open>read_metadata\<close> then
  returns with a warning only. The code does not: the key of Comic in the dictionary of
  line 73 is the string \<^verbatim>\<open>"0x02"\<close>, which no category byte equals, so the lookup raises
  \<^verbatim>\<open>KeyError\<close>. The stream below is a file header followed by a category block with the
  category byte 2.
\<close>

theorem read_metadata_comic_KeyError:
  "read_metadata
     \<lparr>data = [0x89, 0x9b, 0x9a, 0xde, 0x23, 0x01, 0x00, 0x00, 0x08, 0x02, 0xb1, 0x0c], pos = 0\<rparr>
     None = Inl KeyError"
  by (simp add: read_metadata_def read_metadata_block_def category_block_def category_dict_def
      stream_defs unpack_defs)

subsection \<open>Reading a known prefix\<close>

lemma read_prefix:
  "remaining s = xs @ ys \<Longrightarrow> length xs = n \<Longrightarrow> read s (int n) = Inr (xs, advance s n)"
  by (auto simp add: read_def remaining_def advance_def Let_def)

lemma remaining_advance:
  "remaining s = xs @ ys \<Longrightarrow> length xs = n \<Longrightarrow> remaining (advance s n) = ys"
  by (auto simp add: remaining_def advance_def add.commute simp flip: drop_drop)

lemma advance_advance: "advance (advance s m) n = advance s (m + n)"
  by (simp add: advance_def add.assoc)

lemma length_int32s: "length bs = 4 * n \<Longrightarrow> length (int32s bs) = n"
proof (induction bs arbitrary: n rule: int32s.induct)
  case (1 a b c d bs)
  then obtain m where "n = Suc m" by (cases n) auto
  with 1 show ?case by simp
qed (simp_all)

lemma nth_int32s:
  "length bs = 4 * n \<Longrightarrow> k < n \<Longrightarrow> int32s bs ! k = int32 (take 4 (drop (4 * k) bs))"
proof (induction bs arbitrary: n k rule: int32s.induct)
  case (1 a b c d bs)
  then obtain m where n: "n = Suc m" by (cases n) auto
  show ?case
  proof (cases k)
    case 0
    then show ?thesis by simp
  next
    case (Suc j)
    have "drop (4 + 4 * j) ([a, b, c, d] @ bs) = drop (4 * j) bs"
      by (simp only: drop_append) simp
    with Suc 1 n show ?thesis by simp
  qed
qed (simp_all)

lemma read_metadata_block_tag:
  assumes "remaining s = 0x23 # lo # hi # rest"
  shows "read_metadata_block s md =
     (let s' = advance s 3; block_type_byte = uint16 [lo, hi] in
      if block_type_byte = 0x01 then category_block s' md
      else if 0x02 \<le> block_type_byte \<and> block_type_byte < 0x0a
        then text_block (BLOCK_TYPE_DICT block_type_byte) s' md
      else if block_type_byte = 0x0b then full_length_block s' md
      else if block_type_byte = 0x83 then chapter_offsets_block s' md
      else if block_type_byte = 0x84 then chapter_titles_block s' md
      else Inr (Continue (s', md)))"
proof -
  from assms have "remaining s = [0x23, lo, hi] @ rest" by simp
  from read_prefix [OF this, of 3] have "read s 3 = Inr ([0x23, lo, hi], advance s 3)"
    by simp
  then show ?thesis
    by (simp add: read_metadata_block_def unpack_cH_def Let_def)
qed

lemma chapter_offsets_block_ok:
  assumes rem: "remaining s = hdr @ table @ rest"
    and hdr: "unpack_hibii hdr = Inr (h1, i1, b1, i2, C)"
    and eq: "i1 = i2"
    and C: "9 \<le> C"
    and len: "length table = 4 * nat ((C - 9) div 4)"
  shows "chapter_offsets_block s md =
     Inr (Continue (advance s (15 + length table),
            md(''chapter_offsets'' \<mapsto> PyTuple (map (\<lambda>x. int_truediv x 2) (int32s table)))))"
proof -
  from hdr have l15: "length hdr = 15"
    by (simp add: unpack_hibii_def split: if_splits)
  from C have n: "int_truediv (C - 9) 4 = (C - 9) div 4"
    by (simp add: int_truediv_def signed_divide_int_def sgn_if)
  have n0: "0 \<le> (C - 9) div 4" using C by simp
  from read_prefix [OF rem l15] have r1: "read s 15 = Inr (hdr, advance s 15)" by simp
  from remaining_advance [OF rem l15] have rem2: "remaining (advance s 15) = table @ rest" .
  from n0 len have "int (length table) = 4 * ((C - 9) div 4)" by simp
  with read_prefix [OF rem2, of "length table"]
  have r2: "read (advance s 15) (4 * ((C - 9) div 4)) =
      Inr (table, advance s (15 + length table))"
    by (simp add: advance_advance)
  from len have up: "unpack_i_times ((C - 9) div 4) table = Inr (int32s table)"
    by (simp add: unpack_i_times_def)
  show ?thesis
    by (simp add: chapter_offsets_block_def r1 hdr eq n r2 up Let_def)
qed

subsection \<open>The chapter-offsets block\<close>

text \<open>
  Claim C9. For a chapter-offsets block (\<^verbatim>\<open>#\<close>, type \<^verbatim>\<open>0x83\<close>) whose header of 15 bytes
  has two equal redundant values and the encoded count \<open>C\<close> (at least 9, the header
  overhead), followed by the \<open>(C - 9) div 4\<close> values of 4 bytes that the count declares,
  one turn of the loop of \<^verbatim>\<open>read_metadata\<close> consumes the block and stores as
  \<^verbatim>\<open>chapter_offsets\<close> exactly \<open>(C - 9) div 4\<close> numbers: the \<open>k\<close>-th one is the \<open>k\<close>-th
  little-endian signed 32-bit value of the table, halved (\<^verbatim>\<open>int(x / 2)\<close>), in the order of
  the stream.
\<close>

theorem chapter_offsets_decoded:
  assumes rem: "remaining s = [0x23, 0x83, 0x00] @ hdr @ table @ rest"
    and hdr: "unpack_hibii hdr = Inr (h1, i1, b1, i2, C)"
    and eq: "i1 = i2"
    and C: "9 \<le> C"
    and len: "length table = 4 * nat ((C - 9) div 4)"
  shows "read_metadata_block s md =
           Inr (Continue (advance s (18 + length table),
                  md(''chapter_offsets'' \<mapsto>
                     PyTuple (map (\<lambda>x. int_truediv x 2) (int32s table)))))
         \<and> length (int32s table) = nat ((C - 9) div 4)
         \<and> (\<forall>k < nat ((C - 9) div 4).
               map (\<lambda>x. int_truediv x 2) (int32s table) ! k =
               int_truediv (int32 (take 4 (drop (4 * k) table))) 2)"
proof -
  from rem have rem': "remaining s = 0x23 # 0x83 # 0x00 # (hdr @ table @ rest)" by simp
  from rem have "remaining s = [0x23, 0x83, 0x00] @ (hdr @ table @ rest)" by simp
  from remaining_advance [OF this, of 3]
  have rem3: "remaining (advance s 3) = hdr @ table @ rest" by simp
  have tag: "uint16 [0x83, 0x00 :: byte] = 0x83" by (simp add: uint16_def)
  have "read_metadata_block s md = chapter_offsets_block (advance s 3) md"
    by (simp add: read_metadata_block_tag [OF rem'] tag Let_def)
  also have "\<dots> = Inr (Continue (advance (advance s 3) (15 + length table),
            md(''chapter_offsets'' \<mapsto> PyTuple (map (\<lambda>x. int_truediv x 2) (int32s table)))))"
    by (rule chapter_offsets_block_ok [OF rem3 hdr eq C len])
  finally have A: "read_metadata_block s md =
           Inr (Continue (advance s (18 + length table),
                  md(''chapter_offsets'' \<mapsto>
                     PyTuple (map (\<lambda>x. int_truediv x 2) (int32s table)))))"
    by (simp add: advance_advance)
  have B: "length (int32s table) = nat ((C - 9) div 4)"
    by (rule length_int32s [OF len])
  have D: "map (\<lambda>x. int_truediv x 2) (int32s table) ! k =
               int_truediv (int32 (take 4 (drop (4 * k) table))) 2"
    if "k < nat ((C - 9) div 4)" for k
    using that B nth_int32s [OF len that] by simp
  from A B D show ?thesis by blast
qed

theorem chapter_offsets_decoded_witness:
  "read_metadata_block
     \<lparr>data = [0x23, 0x83, 0x00, 1, 9, 7, 0, 0, 0, 0x24, 7, 0, 0, 0, 17, 0, 0, 0,
              0, 0, 0, 0, 10, 0, 0, 0, 0x23], pos = 0\<rparr> Map.empty =
     Inr (Continue
       (\<lparr>data = [0x23, 0x83, 0x00, 1, 9, 7, 0, 0, 0, 0x24, 7, 0, 0, 0, 17, 0, 0, 0,
                 0, 0, 0, 0, 10, 0, 0, 0, 0x23], pos = 26\<rparr>,
        [''chapter_offsets'' \<mapsto> PyTuple [0, 5]]))"
proof -
  let ?s = "\<lparr>data = [0x23, 0x83, 0x00, 1, 9, 7, 0, 0, 0, 0x24, 7, 0, 0, 0, 17, 0, 0, 0,
              0, 0, 0, 0, 10, 0, 0, 0, 0x23 :: byte], pos = 0\<rparr>"
  have rem: "remaining ?s = [0x23, 0x83, 0x00] @ [1, 9, 7, 0, 0, 0, 0x24, 7, 0, 0, 0, 17, 0, 0, 0]
      @ [0, 0, 0, 0, 10, 0, 0, 0] @ [0x23]"
    by (simp add: remaining_def)
  have hdr: "unpack_hibii [1, 9, 7, 0, 0, 0, 0x24, 7, 0, 0, 0, 17, 0, 0, 0] =
      Inr (2305, 7, 36, 7, 17)"
    by (simp add: unpack_defs)
  have len: "length [0, 0, 0, 0, 10, 0, 0, 0 :: byte] = 4 * nat (((17::int) - 9) div 4)"
    by simp
  from chapter_offsets_decoded [OF rem hdr refl _ len, of Map.empty]
  show ?thesis
    by (simp add: advance_def unpack_defs)
qed

subsection \<open>\<^verbatim>\<open>read_cover\<close>\<close>

lemma read_seek:
  "remaining (seek s p) = xs @ ys \<Longrightarrow> length xs = n \<Longrightarrow> q = p + n \<Longrightarrow>
   read (seek s p) (int n) = Inr (xs, seek s q) \<and> remaining (seek s q) = ys"
  by (auto simp add: read_def remaining_def seek_def Let_def add.commute simp flip: drop_drop)

lemma tell_seek: "tell (seek s p) = p"
  by (simp add: tell_def seek_def)

lemma seek_seek: "seek (seek s p) q = seek s q"
  by (simp add: seek_def)

text \<open>
  Claim C10. \<^verbatim>\<open>read_cover\<close> is called with the offset \<open>p\<close> that \<^verbatim>\<open>read_content\<close> returned.
  \<^item> If the stream has no byte at \<open>p\<close>, the cover is \<open>None\<close> and nothing is raised.
  \<^item> If a splitter byte and a 16-bit type other than \<^verbatim>\<open>0x82\<close> follow, the cover is \<open>None\<close>
    and nothing is raised.
  \<^item> If the type is \<^verbatim>\<open>0x82\<close> and the header of 16 bytes carries the encoded length \<open>E\<close>
    (at least 9), the cover is made of the \<open>E - 9\<close> bytes that follow the header (of those
    the stream still has).
  \<^item> Whenever a cover is returned, the type was \<^verbatim>\<open>0x82\<close>.
\<close>

theorem read_cover_outcomes:
  "(remaining (seek s p) = [] \<longrightarrow>
      read_cover dec s (Some (int p)) = Some (Inr ((None, p), seek s p)))
   \<and> (remaining (seek s p) = splitter # ty @ rest \<and> length ty = 2 \<and> int16 ty \<noteq> 0x82 \<longrightarrow>
      read_cover dec s (Some (int p)) = Some (Inr ((None, p + 3), seek s (p + 3))))
   \<and> (remaining (seek s p) = splitter # ty @ hdr @ rest \<and> length ty = 2 \<and> int16 ty = 0x82 \<and>
      unpack_bbbibii hdr = Inr (b1, b2, b3, i1, b4, i2, E) \<and> 9 \<le> E \<longrightarrow>
      read_cover dec s (Some (int p)) =
        Some (Inr ((Some (take (nat (E - 9)) rest), p + 19 + length (take (nat (E - 9)) rest)),
                   seek s (p + 19 + length (take (nat (E - 9)) rest)))))
   \<and> (read_cover dec s (Some (int p)) = Some (Inr ((Some c, q), s')) \<longrightarrow>
      int16 (take 2 (drop 1 (remaining (seek s p)))) = 0x82)"
proof (intro conjI impI)
  assume "remaining (seek s p) = []"
  then show "read_cover dec s (Some (int p)) = Some (Inr ((None, p), seek s p))"
    by (simp add: read_cover_def read_def remaining_def seek_def tell_def Let_def)
next
  assume a: "remaining (seek s p) = splitter # ty @ rest \<and> length ty = 2 \<and> int16 ty \<noteq> 0x82"
  then have r0: "remaining (seek s p) = [splitter] @ ty @ rest" by simp
  have r1: "read (seek s p) 1 = Inr ([splitter], seek s (p + 1))"
    "remaining (seek s (p + 1)) = ty @ rest"
    using read_seek [OF r0, of 1 "p + 1"] by simp_all
  have r2: "read (seek s (p + 1)) 2 = Inr (ty, seek s (p + 3))"
    using read_seek [OF r1(2), of 2 "p + 3"] a by simp
  from a r1 r2 show "read_cover dec s (Some (int p)) = Some (Inr ((None, p + 3), seek s (p + 3)))"
    by (simp add: read_cover_def unpack_h_def tell_seek)
next
  assume a: "remaining (seek s p) = splitter # ty @ hdr @ rest \<and> length ty = 2 \<and> int16 ty = 0x82 \<and>
      unpack_bbbibii hdr = Inr (b1, b2, b3, i1, b4, i2, E) \<and> 9 \<le> E"
  then have r0: "remaining (seek s p) = [splitter] @ ty @ hdr @ rest" by simp
  from a have l16: "length hdr = 16"
    by (simp add: unpack_bbbibii_def split: if_splits)
  have r1: "read (seek s p) 1 = Inr ([splitter], seek s (p + 1))"
    "remaining (seek s (p + 1)) = ty @ hdr @ rest"
    using read_seek [OF r0, of 1 "p + 1"] by simp_all
  have r2: "read (seek s (p + 1)) 2 = Inr (ty, seek s (p + 3))"
    "remaining (seek s (p + 3)) = hdr @ rest"
    using read_seek [OF r1(2), of 2 "p + 3"] a by simp_all
  have r3: "read (seek s (p + 3)) 16 = Inr (hdr, seek s (p + 19))"
    "remaining (seek s (p + 19)) = rest"
    using read_seek [OF r2(2), of 16 "p + 19"] l16 by simp_all
  have r4: "read (seek s (p + 19)) (E - 9) =
      Inr (take (nat (E - 9)) rest, seek s (p + 19 + length (take (nat (E - 9)) rest)))"
    using a r3(2) by (simp add: read_def remaining_def seek_def Let_def)
  from a r1 r2 r3 r4 show "read_cover dec s (Some (int p)) =
        Some (Inr ((Some (take (nat (E - 9)) rest), p + 19 + length (take (nat (E - 9)) rest)),
                   seek s (p + 19 + length (take (nat (E - 9)) rest))))"
    by (simp add: read_cover_def unpack_h_def tell_seek)
next
  assume "read_cover dec s (Some (int p)) = Some (Inr ((Some c, q), s'))"
  then show "int16 (take 2 (drop 1 (remaining (seek s p)))) = 0x82"
    by (auto simp: read_cover_def read_def remaining_def seek_def tell_def Let_def unpack_h_def
        split: if_splits sum.splits prod.splits)
qed

theorem read_cover_outcomes_witness:
  "read_cover Inr \<lparr>data = [], pos = 0\<rparr> (Some 0) = Some (Inr ((None, 0), \<lparr>data = [], pos = 0\<rparr>))
   \<and> read_cover Inr \<lparr>data = [0x23, 0x0c, 0x00], pos = 0\<rparr> (Some 0) =
       Some (Inr ((None, 3), \<lparr>data = [0x23, 0x0c, 0x00], pos = 3\<rparr>))
   \<and> read_cover Inr
         \<lparr>data = [0x23, 0x82, 0x00, 1, 10, 1, 5, 0, 0, 0, 0x24, 5, 0, 0, 0, 11, 0, 0, 0,
                  0xff, 0xd8, 0x23], pos = 0\<rparr> (Some 0) =
       Some (Inr ((Some [0xff, 0xd8], 21),
         \<lparr>data = [0x23, 0x82, 0x00, 1, 10, 1, 5, 0, 0, 0, 0x24, 5, 0, 0, 0, 11, 0, 0, 0,
                  0xff, 0xd8, 0x23], pos = 21\<rparr>))"
proof (intro conjI)
  show "read_cover Inr \<lparr>data = [], pos = 0\<rparr> (Some 0) =
      Some (Inr ((None, 0), \<lparr>data = [], pos = 0\<rparr>))"
    using read_cover_outcomes [where s = "\<lparr>data = [], pos = 0\<rparr>" and p = 0 and dec = Inr]
    by (simp add: remaining_def seek_def)
next
  show "read_cover Inr \<lparr>data = [0x23, 0x0c, 0x00], pos = 0\<rparr> (Some 0) =
       Some (Inr ((None, 3), \<lparr>data = [0x23, 0x0c, 0x00], pos = 3\<rparr>))"
    using read_cover_outcomes [where s = "\<lparr>data = [0x23, 0x0c, 0x00], pos = 0\<rparr>" and p = 0
        and dec = Inr and splitter = "0x23" and ty = "[0x0c, 0x00]" and rest = "[]"]
    by (simp add: remaining_def seek_def int16_def signed_def)
next
  let ?D = "[0x23, 0x82, 0x00, 1, 10, 1, 5, 0, 0, 0, 0x24, 5, 0, 0, 0, 11, 0, 0, 0,
                  0xff, 0xd8, 0x23] :: bytes"
  have hdr: "unpack_bbbibii [1, 10, 1, 5, 0, 0, 0, 0x24, 5, 0, 0, 0, 11, 0, 0, 0] =
      Inr (1, 10, 1, 5, 36, 5, 11)"
    by (simp add: unpack_defs)
  show "read_cover Inr \<lparr>data = ?D, pos = 0\<rparr> (Some 0) =
       Some (Inr ((Some [0xff, 0xd8], 21), \<lparr>data = ?D, pos = 21\<rparr>))"
    using read_cover_outcomes [where s = "\<lparr>data = ?D, pos = 0\<rparr>" and p = 0
        and dec = Inr and splitter = "0x23" and ty = "[0x82, 0x00]"
        and hdr = "[1, 10, 1, 5, 0, 0, 0, 0x24, 5, 0, 0, 0, 11, 0, 0, 0]"
        and rest = "[0xff, 0xd8, 0x23]" and E = 11 and ?b1.0 = 1 and ?b2.0 = 10 and ?b3.0 = 1
        and ?i1.0 = 5 and ?b4.0 = 36 and ?i2.0 = 5] hdr
    by (simp add: remaining_def seek_def int16_def signed_def)
qed

subsection \<open>The chapters of \<^verbatim>\<open>from_stream\<close>\<close>

lemma build_chapters_enough:
  "i + length titles \<le> length offsets \<Longrightarrow>
   \<exists>ch_list. build_chapters offsets content i titles = Inr ch_list \<and>
     length ch_list = length titles \<and>
     (\<forall>k < length titles. ch_list ! k =
        Chapter (titles ! k)
          (py_slice content (offsets ! (i + k))
             (if i + k + 1 = length offsets then None else Some (offsets ! (i + k + 1)))))"
proof (induction titles arbitrary: i)
  case Nil
  show ?case by simp
next
  case (Cons t ts)
  from Cons.prems have "Suc i + length ts \<le> length offsets" by simp
  from Cons.IH [OF this] obtain rest where
    rest: "build_chapters offsets content (Suc i) ts = Inr rest" "length rest = length ts"
      "\<forall>k < length ts. rest ! k =
        Chapter (ts ! k)
          (py_slice content (offsets ! (Suc i + k))
             (if Suc i + k + 1 = length offsets then None else Some (offsets ! (Suc i + k + 1))))"
    by blast
  let ?c = "Chapter t (py_slice content (offsets ! i)
             (if i + 1 = length offsets then None else Some (offsets ! (i + 1))))"
  from Cons.prems rest(1) have eq: "build_chapters offsets content i (t # ts) = Inr (?c # rest)"
    by auto
  have "(?c # rest) ! k =
        Chapter ((t # ts) ! k)
          (py_slice content (offsets ! (i + k))
             (if i + k + 1 = length offsets then None else Some (offsets ! (i + k + 1))))"
    if "k < length (t # ts)" for k
  proof (cases k)
    case 0
    then show ?thesis by simp
  next
    case (Suc j)
    with that rest(3) show ?thesis by simp
  qed
  with eq rest(2) show ?case by simp
qed

lemma build_chapters_short:
  "i \<le> length offsets \<Longrightarrow> length offsets < i + length titles \<Longrightarrow>
   build_chapters offsets content i titles = Inl IndexError"
proof (induction titles arbitrary: i)
  case Nil
  then show ?case by simp
next
  case (Cons t ts)
  show ?case
  proof (cases "length offsets \<le> i")
    case True
    then show ?thesis by simp
  next
    case False
    with Cons.prems have "Suc i \<le> length offsets" "length offsets < Suc i + length ts"
      by simp_all
    from Cons.IH [OF this] False show ?thesis by auto
  qed
qed

lemma py_slice_to_end: "0 \<le> a \<Longrightarrow> py_slice xs a None = drop (nat a) xs"
  by (auto simp: py_slice_def slice_bound_def Let_def)

text \<open>
  Claim C8. With \<open>n \<ge> 1\<close> chapter titles and as many chapter offsets, the chapter loop of
  \<^verbatim>\<open>from_stream\<close> raises nothing and builds \<open>n\<close> chapters. Chapter \<open>i\<close> has the \<open>i\<close>-th title;
  before the last one its content is the slice \<^verbatim>\<open>content[offsets[i]:offsets[i+1]]\<close>, and the
  content of the last one is \<^verbatim>\<open>content[offsets[n-1]:]\<close>, which for an offset that is not
  negative is everything of the body from that offset to its end, whatever the characters.
\<close>

theorem chapters_by_offsets:
  assumes len: "length offsets = length titles" and n: "1 \<le> length titles"
  shows "\<exists>ch_list. build_chapters offsets content 0 titles = Inr ch_list
     \<and> length ch_list = length titles
     \<and> (\<forall>i < length titles. title_of (ch_list ! i) = titles ! i)
     \<and> (\<forall>i. i + 1 < length titles \<longrightarrow>
           content_of (ch_list ! i) = py_slice content (offsets ! i) (Some (offsets ! (i + 1))))
     \<and> content_of (ch_list ! (length titles - 1)) =
           py_slice content (offsets ! (length titles - 1)) None
     \<and> (0 \<le> offsets ! (length titles - 1) \<longrightarrow>
           content_of (ch_list ! (length titles - 1)) =
           drop (nat (offsets ! (length titles - 1))) content)"
proof -
  from len have "0 + length titles \<le> length offsets" by simp
  from build_chapters_enough [OF this, of content] obtain ch_list where
    ch: "build_chapters offsets content 0 titles = Inr ch_list" "length ch_list = length titles"
    and nth: "\<And>k. k < length titles \<Longrightarrow> ch_list ! k =
        Chapter (titles ! k)
          (py_slice content (offsets ! k)
             (if k + 1 = length offsets then None else Some (offsets ! (k + 1))))"
    by auto
  have t: "\<forall>i < length titles. title_of (ch_list ! i) = titles ! i"
    using nth by simp
  have c: "\<forall>i. i + 1 < length titles \<longrightarrow>
           content_of (ch_list ! i) = py_slice content (offsets ! i) (Some (offsets ! (i + 1)))"
    using nth len by simp
  from n obtain m where m: "length titles = Suc m"
    by (cases "length titles") auto
  from nth [of m] m len
  have l: "content_of (ch_list ! (length titles - 1)) =
           py_slice content (offsets ! (length titles - 1)) None"
    by simp
  then
  have e: "0 \<le> offsets ! (length titles - 1) \<longrightarrow>
           content_of (ch_list ! (length titles - 1)) =
           drop (nat (offsets ! (length titles - 1))) content"
    by (simp add: py_slice_to_end)
  from ch t c l e show ?thesis by blast
qed

theorem chapters_by_offsets_witness:
  "build_chapters [0, 2] [72, 105, 33, 33] 0 [[65], [66]] =
     Inr [Chapter [65] [72, 105], Chapter [66] [33, 33]]"
proof -
  have a: "length [0, 2 :: int] = length [[65], [66 :: nat]]" by simp
  have b: "1 \<le> length [[65], [66 :: nat]]" by simp
  from chapters_by_offsets [OF a b, of "[72, 105, 33, 33]"] obtain ch_list where
    ch: "build_chapters [0, 2] [72, 105, 33, 33] 0 [[65], [66]] = Inr ch_list"
    and l: "length ch_list = 2"
    and t: "\<forall>i < 2. title_of (ch_list ! i) = [[65], [66]] ! i"
    and c0: "content_of (ch_list ! 0) = py_slice [72, 105, 33, 33] 0 (Some 2)"
    and c1: "content_of (ch_list ! 1) = py_slice [72, 105, 33, 33] 2 None"
    by auto
  from l obtain x y where xy: "ch_list = [x, y]"
    by (cases ch_list; cases "tl ch_list") auto
  from t have "title_of (ch_list ! 0) = [65]" "title_of (ch_list ! 1) = [66]"
    by auto
  with xy c0 c1 have "x = Chapter [65] [72, 105]" "y = Chapter [66] [33, 33]"
    by (cases x; cases y; simp add: py_slice_def slice_bound_def)+
  with ch xy show ?thesis by simp
qed

text \<open>
  Claim C4. The claim: whenever the chapter offsets and the chapter titles differ in
  length, the assembly raises. The code has no such check. With two offsets and one
  title the loop runs once, slices the body between the two offsets and returns one
  chapter.
\<close>

theorem chapters_fewer_titles_no_error:
  "length [0, 2 :: int] \<noteq> length [[65 :: nat]] \<and>
   build_chapters [0, 2] [72, 105, 33, 33] 0 [[65]] = Inr [Chapter [65] [72, 105]]"
  by (simp add: py_slice_def slice_bound_def)

text \<open>
  Claim C4, amended. With more titles than offsets the loop raises \<^verbatim>\<open>IndexError\<close>, at the
  first title that has no offset. With fewer titles than offsets it raises nothing and
  builds one chapter for each title: chapter \<open>i\<close> has the \<open>i\<close>-th title and the content
  \<^verbatim>\<open>content[offsets[i]:offsets[i+1]]\<close>. This holds for the last chapter too, which ends at
  the first offset that has no title and not at the end of the body; the offsets after
  that one are not used.
\<close>

theorem chapters_length_mismatch:
  "(length offsets < length titles \<longrightarrow>
      build_chapters offsets content 0 titles = Inl IndexError)
   \<and> (length titles < length offsets \<longrightarrow>
      (\<exists>ch_list. build_chapters offsets content 0 titles = Inr ch_list \<and>
         length ch_list = length titles \<and>
         (\<forall>i < length titles. ch_list ! i =
            Chapter (titles ! i)
              (py_slice content (offsets ! i) (Some (offsets ! (i + 1)))))))"
proof (intro conjI impI)
  assume "length offsets < length titles"
  then show "build_chapters offsets content 0 titles = Inl IndexError"
    using build_chapters_short [of 0 offsets titles content] by simp
next
  assume less: "length titles < length offsets"
  then have "0 + length titles \<le> length offsets" by simp
  from build_chapters_enough [OF this, of content] obtain ch_list where
    ch: "build_chapters offsets content 0 titles = Inr ch_list"
      "length ch_list = length titles"
    and nth: "\<And>k. k < length titles \<Longrightarrow> ch_list ! k =
        Chapter (titles ! k)
          (py_slice content (offsets ! k)
             (if k + 1 = length offsets then None else Some (offsets ! (k + 1))))"
    by auto
  have "ch_list ! i =
      Chapter (titles ! i) (py_slice content (offsets ! i) (Some (offsets ! (i + 1))))"
    if "i < length titles" for i
  proof -
    from that less have "i + 1 \<noteq> length offsets" by simp
    with nth [OF that] show ?thesis by simp
  qed
  with ch show "\<exists>ch_list. build_chapters offsets content 0 titles = Inr ch_list \<and>
         length ch_list = length titles \<and>
         (\<forall>i < length titles. ch_list ! i =
            Chapter (titles ! i)
              (py_slice content (offsets ! i) (Some (offsets ! (i + 1)))))"
    by blast
qed

theorem chapters_length_mismatch_witness:
  "build_chapters [0] [72, 105, 33, 33] 0 [[65], [66]] = Inl IndexError
   \<and> build_chapters [0, 2, 3] [72, 105, 33, 33] 0 [[65], [66]] =
       Inr [Chapter [65] [72, 105], Chapter [66] [33]]"
proof (intro conjI)
  show "build_chapters [0] [72, 105, 33, 33] 0 [[65], [66]] = Inl IndexError"
    using chapters_length_mismatch [of "[0]" "[[65], [66]]" "[72, 105, 33, 33]"]
    by simp
next
  have "length [[65], [66 :: nat]] < length [0, 2, 3 :: int]" by simp
  with chapters_length_mismatch [of "[0, 2, 3]" "[[65], [66]]" "[72, 105, 33, 33]"]
  obtain ch_list where
    ch: "build_chapters [0, 2, 3] [72, 105, 33, 33] 0 [[65], [66]] = Inr ch_list"
    and l: "length ch_list = 2"
    and nth: "\<forall>i < 2. ch_list ! i =
        Chapter ([[65], [66]] ! i)
          (py_slice [72, 105, 33, 33] ([0, 2, 3] ! i) (Some ([0, 2, 3] ! (i + 1))))"
    by auto
  from l obtain x y where xy: "ch_list = [x, y]"
    by (cases ch_list; cases "tl ch_list") auto
  from nth have "ch_list ! 0 = Chapter [65] (py_slice [72, 105, 33, 33] 0 (Some 2))"
    and "ch_list ! 1 = Chapter [66] (py_slice [72, 105, 33, 33] 2 (Some 3))"
    by auto
  with xy have "x = Chapter [65] [72, 105]" "y = Chapter [66] [33]"
    by (simp_all add: py_slice_def slice_bound_def)
  with ch xy show "build_chapters [0, 2, 3] [72, 105, 33, 33] 0 [[65], [66]] =
       Inr [Chapter [65] [72, 105], Chapter [66] [33]]"
    by simp
qed

subsection \<open>Block types that no branch handles\<close>

text \<open>
  Claim C3. The claim: a block whose type is not one of \<^verbatim>\<open>0x01\<close>, \<^verbatim>\<open>0x02\<close> to \<^verbatim>\<open>0x09\<close>,
  \<^verbatim>\<open>0x0b\<close>, \<^verbatim>\<open>0x83\<close>, \<^verbatim>\<open>0x84\<close> makes \<^verbatim>\<open>read_metadata\<close> fail. The code does not fail: in the
  stream below a block of type \<^verbatim>\<open>0x0a\<close> stands between the title block and the block of
  the chapter titles, and \<^verbatim>\<open>read_metadata\<close> returns the metadata and the offset 43.
\<close>

theorem read_metadata_unknown_type_returns:
  "read_metadata
     \<lparr>data = [0x89, 0x9b, 0x9a, 0xde,
              0x23, 0x01, 0x00, 0x00, 0x08, 0x01, 0xb1, 0x0c,
              0x23, 0x02, 0x00, 0x00, 0x07, 0x54, 0x00,
              0x23, 0x0a, 0x00,
              0x23, 0x84, 0x00, 1, 9, 8, 0, 0, 0, 0x24, 8, 0, 0, 0, 12, 0, 0, 0, 2, 0x43, 0],
      pos = 0\<rparr> None =
   Inr ((Map.empty(''category'' \<mapsto> PyStr (py_str ''Novel''), ''title'' \<mapsto> PyStr [0x54],
           ''chapter_titles'' \<mapsto> PyList [[0x43]], ''body_offset'' \<mapsto> PyInt 43), 43),
     \<lparr>data = [0x89, 0x9b, 0x9a, 0xde,
              0x23, 0x01, 0x00, 0x00, 0x08, 0x01, 0xb1, 0x0c,
              0x23, 0x02, 0x00, 0x00, 0x07, 0x54, 0x00,
              0x23, 0x0a, 0x00,
              0x23, 0x84, 0x00, 1, 9, 8, 0, 0, 0, 0x24, 8, 0, 0, 0, 12, 0, 0, 0, 2, 0x43, 0],
      pos = 43\<rparr>)"
  by (simp add: read_metadata_def read_metadata_block_def category_block_def category_dict_def
      text_block_def chapter_titles_block_def BLOCK_TYPE_DICT_def py_str_def
      stream_defs unpack_defs)

text \<open>
  Claim C3, amended. A block that starts with \<^verbatim>\<open>#\<close> and has a type outside the handled
  ones is skipped: the turn of the loop consumes the three bytes of the splitter and the
  type, leaves the metadata as it is, and the loop goes on with what follows.
\<close>

theorem unknown_type_skipped:
  assumes rem: "remaining s = [0x23, lo, hi] @ rest"
    and ty: "uint16 [lo, hi] \<notin> {0x01, 0x02, 0x03, 0x04, 0x05, 0x06, 0x07, 0x08, 0x09, 0x0b, 0x83, 0x84}"
  shows "read_metadata_block s md = Inr (Continue (advance s 3, md))
       \<and> read_metadata_loop s md = read_metadata_loop (advance s 3) md"
proof -
  from rem have rem': "remaining s = 0x23 # lo # hi # rest" by simp
  from ty have "read_metadata_block s md = Inr (Continue (advance s 3, md))"
    by (auto simp add: read_metadata_block_tag [OF rem'] Let_def)
  then show ?thesis by simp
qed

theorem unknown_type_skipped_witness:
  "read_metadata_block \<lparr>data = [0x23, 0x0a, 0x00, 0x23], pos = 0\<rparr> Map.empty =
     Inr (Continue (\<lparr>data = [0x23, 0x0a, 0x00, 0x23], pos = 3\<rparr>, Map.empty))"
  using unknown_type_skipped [of "\<lparr>data = [0x23, 0x0a, 0x00, 0x23], pos = 0\<rparr>" "0x0a" "0x00"
      "[0x23]" Map.empty]
  by (simp add: remaining_def advance_def uint16_def)

subsection \<open>The redundant values of a block\<close>

text \<open>
  Claim C2. The claim: in every record that carries a value twice, the category block
  among them, two copies that differ make the decoder raise. The code does not compare
  the two 16-bit values \<^verbatim>\<open>h1\<close> and \<^verbatim>\<open>h2\<close> of the category block. The stream below has the
  category block of the comment of line 69, whose values are \<^verbatim>\<open>0x0800\<close> and \<^verbatim>\<open>0x0cb1\<close>, and
  \<^verbatim>\<open>read_metadata\<close> returns.
\<close>

theorem read_metadata_category_pair_differs:
  "unpack_hbh [0x00, 0x08, 0x01, 0xb1, 0x0c] = Inr (0x0800, 1, 0x0cb1) \<and>
   read_metadata
     \<lparr>data = [0x89, 0x9b, 0x9a, 0xde,
              0x23, 0x01, 0x00, 0x00, 0x08, 0x01, 0xb1, 0x0c,
              0x23, 0x02, 0x00, 0x00, 0x07, 0x54, 0x00,
              0x23, 0x84, 0x00, 1, 9, 8, 0, 0, 0, 0x24, 8, 0, 0, 0, 12, 0, 0, 0, 2, 0x43, 0],
      pos = 0\<rparr> None =
   Inr ((Map.empty(''category'' \<mapsto> PyStr (py_str ''Novel''), ''title'' \<mapsto> PyStr [0x54],
           ''chapter_titles'' \<mapsto> PyList [[0x43]], ''body_offset'' \<mapsto> PyInt 40), 40),
     \<lparr>data = [0x89, 0x9b, 0x9a, 0xde,
              0x23, 0x01, 0x00, 0x00, 0x08, 0x01, 0xb1, 0x0c,
              0x23, 0x02, 0x00, 0x00, 0x07, 0x54, 0x00,
              0x23, 0x84, 0x00, 1, 9, 8, 0, 0, 0, 0x24, 8, 0, 0, 0, 12, 0, 0, 0, 2, 0x43, 0],
      pos = 40\<rparr>)"
  by (simp add: read_metadata_def read_metadata_block_def category_block_def category_dict_def
      text_block_def chapter_titles_block_def BLOCK_TYPE_DICT_def py_str_def
      stream_defs unpack_defs)

lemma category_block_novel:
  assumes rem: "remaining s = buf @ rest"
    and buf: "unpack_hbh buf = Inr (h1, 1, h2)"
  shows "category_block s md =
     Inr (Continue (advance s 5, md(''category'' \<mapsto> PyStr (py_str ''Novel''))))"
proof -
  from buf have l5: "length buf = 5"
    by (simp add: unpack_hbh_def split: if_splits)
  from read_prefix [OF rem l5] have "read s 5 = Inr (buf, advance s 5)" by simp
  with buf show ?thesis
    by (simp add: category_block_def category_dict_def)
qed

lemma redundant_i1_i2_differ:
  assumes rem: "remaining s = hdr @ rest"
    and hdr: "unpack_hibii hdr = Inr (h1, i1, b1, i2, c)"
    and ne: "i1 \<noteq> i2"
  shows "chapter_offsets_block s md = Inl AssertionError"
    and "chapter_titles_block s md = Inl AssertionError"
proof -
  from hdr have l15: "length hdr = 15"
    by (simp add: unpack_hibii_def split: if_splits)
  from read_prefix [OF rem l15] have r: "read s 15 = Inr (hdr, advance s 15)" by simp
  from r hdr ne show "chapter_offsets_block s md = Inl AssertionError"
    by (simp add: chapter_offsets_block_def)
  from r hdr ne show "chapter_titles_block s md = Inl AssertionError"
    by (simp add: chapter_titles_block_def)
qed

text \<open>
  Claim C2, amended. In the chapter-offsets block (\<^verbatim>\<open>0x83\<close>) and in the chapter-titles
  block (\<^verbatim>\<open>0x84\<close>) the two copies \<^verbatim>\<open>i1\<close> and \<^verbatim>\<open>i2\<close> of the 32-bit value are compared: when
  they differ the block raises \<^verbatim>\<open>AssertionError\<close> and so does the loop, which reads no
  further. The two 16-bit values of the category block are not compared: with the
  category byte 1 the block is accepted whatever they are.
\<close>

theorem redundant_pair_checked:
  "(remaining s = [0x23, ty, 0x00] @ hdr @ rest \<and> (ty = 0x83 \<or> ty = 0x84) \<and>
    unpack_hibii hdr = Inr (h1, i1, b1, i2, c) \<and> i1 \<noteq> i2 \<longrightarrow>
      read_metadata_block s md = Inl AssertionError \<and>
      read_metadata_loop s md = Inl AssertionError)
   \<and> (remaining s = [0x23, 0x01, 0x00] @ buf @ rest' \<and> unpack_hbh buf = Inr (g1, 1, g2) \<longrightarrow>
      read_metadata_block s md =
        Inr (Continue (advance s 8, md(''category'' \<mapsto> PyStr (py_str ''Novel'')))))"
proof (intro conjI impI)
  assume a: "remaining s = [0x23, ty, 0x00] @ hdr @ rest \<and> (ty = 0x83 \<or> ty = 0x84) \<and>
    unpack_hibii hdr = Inr (h1, i1, b1, i2, c) \<and> i1 \<noteq> i2"
  then have rem': "remaining s = 0x23 # ty # 0x00 # (hdr @ rest)"
    and rem: "remaining s = [0x23, ty, 0x00] @ (hdr @ rest)"
    by simp_all
  from remaining_advance [OF rem, of 3] have rem3: "remaining (advance s 3) = hdr @ rest"
    by simp
  from a have hdr: "unpack_hibii hdr = Inr (h1, i1, b1, i2, c)" and ne: "i1 \<noteq> i2"
    by simp_all
  from a have "uint16 [ty, 0x00] = 0x83 \<or> uint16 [ty, 0x00] = 0x84"
    by (auto simp: uint16_def)
  then show blk: "read_metadata_block s md = Inl AssertionError"
    by (auto simp add: read_metadata_block_tag [OF rem'] Let_def
        redundant_i1_i2_differ [OF rem3 hdr ne])
  then show "read_metadata_loop s md = Inl AssertionError"
    by simp
next
  assume a: "remaining s = [0x23, 0x01, 0x00] @ buf @ rest' \<and> unpack_hbh buf = Inr (g1, 1, g2)"
  then have rem': "remaining s = 0x23 # 0x01 # 0x00 # (buf @ rest')"
    and rem: "remaining s = [0x23, 0x01, 0x00] @ (buf @ rest')"
    by simp_all
  from remaining_advance [OF rem, of 3] have rem3: "remaining (advance s 3) = buf @ rest'"
    by simp
  from a have buf: "unpack_hbh buf = Inr (g1, 1, g2)" by simp
  have tag: "uint16 [0x01, 0x00 :: byte] = 0x01" by (simp add: uint16_def)
  show "read_metadata_block s md =
        Inr (Continue (advance s 8, md(''category'' \<mapsto> PyStr (py_str ''Novel''))))"
    by (simp add: read_metadata_block_tag [OF rem'] tag Let_def
        category_block_novel [OF rem3 buf] advance_advance)
qed

theorem redundant_pair_checked_witness:
  "read_metadata_loop
     \<lparr>data = [0x23, 0x83, 0x00, 1, 9, 7, 0, 0, 0, 0x24, 8, 0, 0, 0, 13, 0, 0, 0, 0, 0, 0, 0],
      pos = 0\<rparr> Map.empty = Inl AssertionError
   \<and> read_metadata_block
     \<lparr>data = [0x23, 0x01, 0x00, 0x00, 0x08, 0x01, 0xb1, 0x0c], pos = 0\<rparr> Map.empty =
       Inr (Continue (\<lparr>data = [0x23, 0x01, 0x00, 0x00, 0x08, 0x01, 0xb1, 0x0c], pos = 8\<rparr>,
                      [''category'' \<mapsto> PyStr (py_str ''Novel'')]))"
proof (intro conjI)
  have hdr: "unpack_hibii [1, 9, 7, 0, 0, 0, 0x24, 8, 0, 0, 0, 13, 0, 0, 0] =
      Inr (2305, 7, 36, 8, 13)"
    by (simp add: unpack_defs)
  show "read_metadata_loop
     \<lparr>data = [0x23, 0x83, 0x00, 1, 9, 7, 0, 0, 0, 0x24, 8, 0, 0, 0, 13, 0, 0, 0, 0, 0, 0, 0],
      pos = 0\<rparr> Map.empty = Inl AssertionError"
    using redundant_pair_checked [where
        s = "\<lparr>data = [0x23, 0x83, 0x00, 1, 9, 7, 0, 0, 0, 0x24, 8, 0, 0, 0, 13, 0, 0, 0, 0, 0, 0, 0],
      pos = 0\<rparr>" and ty = "0x83" and hdr = "[1, 9, 7, 0, 0, 0, 0x24, 8, 0, 0, 0, 13, 0, 0, 0]"
        and rest = "[0, 0, 0, 0]" and ?h1.0 = 2305 and ?i1.0 = 7 and ?b1.0 = 36 and ?i2.0 = 8
        and c = 13 and md = Map.empty] hdr
    by (simp add: remaining_def)
next
  have buf: "unpack_hbh [0x00, 0x08, 0x01, 0xb1, 0x0c] = Inr (0x0800, 1, 0x0cb1)"
    by (simp add: unpack_defs)
  show "read_metadata_block
     \<lparr>data = [0x23, 0x01, 0x00, 0x00, 0x08, 0x01, 0xb1, 0x0c], pos = 0\<rparr> Map.empty =
       Inr (Continue (\<lparr>data = [0x23, 0x01, 0x00, 0x00, 0x08, 0x01, 0xb1, 0x0c], pos = 8\<rparr>,
                      [''category'' \<mapsto> PyStr (py_str ''Novel'')]))"
    using redundant_pair_checked [where
        s = "\<lparr>data = [0x23, 0x01, 0x00, 0x00, 0x08, 0x01, 0xb1, 0x0c], pos = 0\<rparr>"
        and buf = "[0x00, 0x08, 0x01, 0xb1, 0x0c]" and rest' = "[]" and ?g1.0 = "0x0800"
        and ?g2.0 = "0x0cb1" and md = Map.empty] buf
    by (simp add: remaining_def advance_def)
qed

subsection \<open>The content loop on well-formed records\<close>

lemma read_chunk:
  assumes "remaining (advance s a) = xs @ ys" and "length xs = n" and "b = a + n"
  shows "read (advance s a) (int n) = Inr (xs, advance s b)"
    and "remaining (advance s b) = ys"
  using read_prefix [OF assms(1,2)] remaining_advance [OF assms(1,2)] assms(3)
  by (simp_all add: advance_advance)

lemma control_turn:
  assumes wf: "wf_record (Control ty payload)"
    and rem: "remaining s = ty @ payload @ x # later"
  shows "read_content_turn dec (s, [0x23], rnd_lst, content_list) =
      Inr (Continue (advance s (length (record_bytes (Control ty payload))), [x],
                     rnd_lst, content_list))"
    and "remaining (advance s (length (record_bytes (Control ty payload)))) = later"
proof -
  from wf have l2: "length ty = 2" and ne: "int16 ty \<noteq> 0x81" by simp_all
  from read_prefix [OF rem l2] remaining_advance [OF rem l2]
  have r1: "read s 2 = Inr (ty, advance s 2)" "remaining (advance s 2) = payload @ [x] @ later"
    by simp_all
  let ?n = "length (record_bytes (Control ty payload))"
  have n: "?n = 3 + length payload" using l2 by simp
  from read_chunk [OF r1(2) refl, of "2 + length payload"]
  have p: "remaining (advance s (2 + length payload)) = [x] @ later"
    by simp
  from read_chunk [OF p, of 1 "3 + length payload"]
  have r3: "read (advance s (2 + length payload)) 1 = Inr ([x], advance s (3 + length payload))"
    "remaining (advance s (3 + length payload)) = later"
    by simp_all
  have cp: "control_payload (int16 ty) (advance s 2) = Inr (advance s (2 + length payload))"
  proof (cases "int16 ty = 0xf1")
    case True
    with wf have l: "length payload = 18" by simp
    from read_chunk [OF r1(2) l, of 20] l True
    show ?thesis by (simp add: control_payload_def unpack_h16c_def)
  next
    case False
    show ?thesis
    proof (cases "int16 ty = 0x0a")
      case True
      with wf have l: "length payload = 6" by simp
      from read_chunk [OF r1(2) l, of 8] l True
      show ?thesis by (simp add: control_payload_def unpack_hi_def)
    next
      case F2: False
      with False wf have "payload = []" by simp
      with False F2 show ?thesis by (simp add: control_payload_def)
    qed
  qed
  from r1(1) l2 ne cp r3(1)
  have "read_content_turn dec (s, [0x23], rnd_lst, content_list) =
      Inr (Continue (advance s (3 + length payload), [x], rnd_lst, content_list))"
    by (simp add: read_content_turn_def unpack_h_def)
  then show "read_content_turn dec (s, [0x23], rnd_lst, content_list) =
      Inr (Continue (advance s ?n, [x], rnd_lst, content_list))"
    unfolding n .
  from r3(2) show "remaining (advance s ?n) = later" unfolding n .
qed

lemma segment_turn:
  assumes wf: "wf_record (Segment hdr block)"
    and rem: "remaining s = hdr @ block @ x # later"
    and dec: "dec block = Inr plain"
  shows "read_content_turn dec (s, [0x24], rnd_lst, content_list) =
      Inr (Continue (advance s (length (record_bytes (Segment hdr block))), [x],
                     rnd_lst @ [int32 (take 4 hdr)], content_list @ [plain]))"
    and "remaining (advance s (length (record_bytes (Segment hdr block)))) = later"
proof -
  from wf have l8: "length hdr = 8" and raw: "int32 (drop 4 hdr) = int (length block) + 9"
    by simp_all
  from read_prefix [OF rem l8] remaining_advance [OF rem l8]
  have r1: "read s 8 = Inr (hdr, advance s 8)" "remaining (advance s 8) = block @ [x] @ later"
    by simp_all
  from l8 raw have up: "unpack_ii hdr = Inr (int32 (take 4 hdr), int (length block) + 9)"
    by (simp add: unpack_ii_def)
  from read_chunk [OF r1(2) refl, of "8 + length block"]
  have r2: "read (advance s 8) (int (length block)) = Inr (block, advance s (8 + length block))"
    "remaining (advance s (8 + length block)) = [x] @ later"
    by simp_all
  from read_chunk [OF r2(2), of 1 "9 + length block"]
  have r3: "read (advance s (8 + length block)) 1 = Inr ([x], advance s (9 + length block))"
    "remaining (advance s (9 + length block)) = later"
    by simp_all
  let ?n = "length (record_bytes (Segment hdr block))"
  have n: "?n = 9 + length block" using l8 by simp
  from r1(1) up r2(1) dec r3(1)
  have "read_content_turn dec (s, [0x24], rnd_lst, content_list) =
      Inr (Continue (advance s (9 + length block), [x],
                     rnd_lst @ [int32 (take 4 hdr)], content_list @ [plain]))"
    by (simp add: read_content_turn_def)
  then show "read_content_turn dec (s, [0x24], rnd_lst, content_list) =
      Inr (Continue (advance s ?n, [x], rnd_lst @ [int32 (take 4 hdr)], content_list @ [plain]))"
    unfolding n .
  from r3(2) show "remaining (advance s ?n) = later" unfolding n .
qed

lemma read_content_loop_records:
  assumes "\<forall>r \<in> set recs. wf_record r"
    and "map dec (segment_blocks recs) = map Inr plains"
    and "splitter @ remaining s = concat (map record_bytes recs) @ [0x23, 0x81, 0x00] @ rest"
    and "length splitter = 1"
  shows "read_content_loop dec (s, splitter, rnd_lst, content_list) =
     Some (Inr (advance s (length (concat (map record_bytes recs)) + 2), [0x23],
                rnd_lst @ segment_indices recs, content_list @ plains))"
  using assms
proof (induction recs arbitrary: s splitter rnd_lst content_list plains)
  case Nil
  from Nil.prems(4) obtain c where c: "splitter = [c]"
    by (cases splitter) auto
  with Nil.prems(3) have sp: "splitter = [0x23]" and rem: "remaining s = [0x81, 0x00] @ rest"
    by simp_all
  from read_prefix [OF rem, of 2] have r: "read s 2 = Inr ([0x81, 0x00], advance s 2)"
    by simp
  have "read_content_turn dec (s, [0x23], rnd_lst, content_list) =
      Inr (Break (advance s 2, [0x23], rnd_lst, content_list))"
    using r by (simp add: read_content_turn_def unpack_h_def int16_def signed_def)
  then have "read_content_loop dec (s, [0x23], rnd_lst, content_list) =
      Some (Inr (advance s 2, [0x23], rnd_lst, content_list))"
    by (subst read_content_loop.simps) simp
  with sp Nil.prems(2) show ?case by (simp add: numeral_2_eq_2)
next
  case (Cons r rs)
  from Cons.prems(4) obtain c where c: "splitter = [c]"
    by (cases splitter) auto
  obtain x later where nxt: "concat (map record_bytes rs) @ [0x23, 0x81, 0x00] @ rest = x # later"
    by (cases "concat (map record_bytes rs) @ [0x23, 0x81, 0x00] @ rest") auto
  from Cons.prems(1) have wf: "wf_record r" and wfs: "\<forall>r \<in> set rs. wf_record r"
    by simp_all
  let ?n = "length (record_bytes r)"
  have "\<exists>ps. read_content_turn dec (s, splitter, rnd_lst, content_list) =
          Inr (Continue (advance s ?n, [x], rnd_lst @ segment_indices [r], content_list @ ps))
        \<and> remaining (advance s ?n) = later
        \<and> (\<exists>qs. plains = ps @ qs \<and> map dec (segment_blocks rs) = map Inr qs)"
  proof (cases r)
    case (Control ty payload)
    with Cons.prems(3) c nxt have sp: "splitter = [0x23]"
      and rem: "remaining s = ty @ payload @ x # later"
      by simp_all
    from control_turn(1) [OF wf [unfolded Control] rem, of dec rnd_lst content_list]
      control_turn(2) [OF wf [unfolded Control] rem] Control sp Cons.prems(2)
    show ?thesis by simp
  next
    case (Segment hdr block)
    with Cons.prems(3) c nxt have sp: "splitter = [0x24]"
      and rem: "remaining s = hdr @ block @ x # later"
      by simp_all
    from Cons.prems(2) Segment obtain p qs where pq: "plains = p # qs" "dec block = Inr p"
      "map dec (segment_blocks rs) = map Inr qs"
      by (cases plains) auto
    from segment_turn(1) [where dec = dec, OF wf [unfolded Segment] rem pq(2),
        of rnd_lst content_list]
      segment_turn(2) [where dec = dec, OF wf [unfolded Segment] rem pq(2)] Segment sp pq
    show ?thesis by simp
  qed
  then obtain ps qs where
    turn: "read_content_turn dec (s, splitter, rnd_lst, content_list) =
          Inr (Continue (advance s ?n, [x], rnd_lst @ segment_indices [r], content_list @ ps))"
    and rem': "remaining (advance s ?n) = later"
    and pl: "plains = ps @ qs" "map dec (segment_blocks rs) = map Inr qs"
    by blast
  from rem' nxt
  have inv: "[x] @ remaining (advance s ?n) =
      concat (map record_bytes rs) @ [0x23, 0x81, 0x00] @ rest"
    by simp
  have "read_content_loop dec (s, splitter, rnd_lst, content_list) =
      read_content_loop dec
        (advance s ?n, [x], rnd_lst @ segment_indices [r], content_list @ ps)"
    by (subst read_content_loop.simps) (simp add: turn)
  also have "\<dots> = Some (Inr (advance (advance s ?n) (length (concat (map record_bytes rs)) + 2),
        [0x23], (rnd_lst @ segment_indices [r]) @ segment_indices rs, (content_list @ ps) @ qs))"
    by (rule Cons.IH [OF wfs pl(2) inv]) simp
  also have "advance (advance s ?n) (length (concat (map record_bytes rs)) + 2) =
      advance s (length (concat (map record_bytes (r # rs))) + 2)"
    by (simp add: advance_advance)
  also have "(rnd_lst @ segment_indices [r]) @ segment_indices rs =
      rnd_lst @ segment_indices (r # rs)"
    by (cases r) simp_all
  finally show ?case using pl(1) by simp
qed

lemma read_trailer_table:
  assumes rem: "remaining s = hdr @ table @ rest"
    and hdr: "unpack_hibii hdr = Inr (h, i1, b, i2, B)"
    and B: "9 \<le> B"
    and len: "length table = 4 * nat ((B - 9) div 4)"
  shows "read_trailer s rnd_lst content_list =
     (if rnd_lst \<noteq> int32s table then Inl AssertionError
      else case decode_utf16_le (concat content_list) of
             Inl e \<Rightarrow> Inl e
           | Inr content \<Rightarrow>
               Inr ((content, pos s + (15 + length table)), advance s (15 + length table)))"
proof -
  from hdr have l15: "length hdr = 15"
    by (simp add: unpack_hibii_def split: if_splits)
  from B have n: "int_truediv (B - 9) 4 = (B - 9) div 4"
    by (simp add: int_truediv_def signed_divide_int_def sgn_if)
  have n0: "0 \<le> (B - 9) div 4" using B by simp
  from read_prefix [OF rem l15] have r1: "read s 15 = Inr (hdr, advance s 15)" by simp
  from remaining_advance [OF rem l15] have rem2: "remaining (advance s 15) = table @ rest" .
  from n0 len have "int (length table) = 4 * ((B - 9) div 4)" by simp
  with read_prefix [OF rem2, of "length table"]
  have r2: "read (advance s 15) (4 * ((B - 9) div 4)) =
      Inr (table, advance s (15 + length table))"
    by (simp add: advance_advance)
  from len have up: "unpack_i_times ((B - 9) div 4) table = Inr (int32s table)"
    by (simp add: unpack_i_times_def)
  have tl: "tell (advance s (15 + length table)) = pos s + (15 + length table)"
    by (simp add: tell_def advance_def)
  show ?thesis
    by (simp add: read_trailer_def r1 hdr n r2 up tl Let_def split: sum.split)
qed

lemma read_content_records:
  assumes layout: "remaining (seek s p) =
      concat (map record_bytes recs) @ [0x23, 0x81, 0x00] @ rest"
    and wf: "\<forall>r \<in> set recs. wf_record r"
    and dec: "map dec (segment_blocks recs) = map Inr plains"
  shows "read_content dec s (Some (int p)) =
     Some (read_trailer (seek s (p + (length (concat (map record_bytes recs)) + 3)))
             (segment_indices recs) plains)"
    and "remaining (seek s (p + (length (concat (map record_bytes recs)) + 3))) = rest"
proof -
  let ?L = "length (concat (map record_bytes recs))"
  obtain c later where c: "concat (map record_bytes recs) @ [0x23, 0x81, 0x00] @ rest = c # later"
    by (cases "concat (map record_bytes recs) @ [0x23, 0x81, 0x00] @ rest") auto
  with layout have l0: "remaining (seek s p) = [c] @ later" by simp
  from read_seek [OF l0, of 1 "p + 1"]
  have r1: "read (seek s p) 1 = Inr ([c], seek s (p + 1))"
    and rem1: "remaining (seek s (p + 1)) = later"
    by simp_all
  from rem1 c have inv: "[c] @ remaining (seek s (p + 1)) =
      concat (map record_bytes recs) @ [0x23, 0x81, 0x00] @ rest"
    by simp
  have sk: "advance (seek s (p + 1)) (?L + 2) = seek s (p + (?L + 3))"
    by (simp add: advance_def seek_def)
  from read_content_loop_records [OF wf dec inv, of "[]" "[]"]
  have loop: "read_content_loop dec (seek s (p + 1), [c], [], []) =
      Some (Inr (seek s (p + (?L + 3)), [0x23], segment_indices recs, plains))"
    unfolding sk by simp
  from r1 loop show "read_content dec s (Some (int p)) =
     Some (read_trailer (seek s (p + (?L + 3))) (segment_indices recs) plains)"
    by (simp add: read_content_def)
  have "remaining (seek s (p + (?L + 3))) =
      drop (?L + 3) (remaining (seek s p))"
    by (simp add: remaining_def seek_def add.commute)
  also have "\<dots> = rest"
    unfolding layout by simp
  finally show "remaining (seek s (p + (?L + 3))) = rest" .
qed

lemma read_content_body:
  assumes layout: "remaining (seek s p) =
      concat (map record_bytes recs) @ [0x23, 0x81, 0x00] @ hdr @ table @ rest"
    and wf: "\<forall>r \<in> set recs. wf_record r"
    and dec: "map dec (segment_blocks recs) = map Inr plains"
    and hdr: "unpack_hibii hdr = Inr (h, i1, b, i2, B)"
    and B: "9 \<le> B"
    and len: "length table = 4 * nat ((B - 9) div 4)"
  shows "read_content dec s (Some (int p)) =
     Some (if segment_indices recs \<noteq> int32s table then Inl AssertionError
           else case decode_utf16_le (concat plains) of
                  Inl e \<Rightarrow> Inl e
                | Inr content \<Rightarrow>
                    Inr ((content,
                          p + (length (concat (map record_bytes recs)) + 18 + length table)),
                         seek s (p + (length (concat (map record_bytes recs)) + 18
                                      + length table))))"
proof -
  let ?L = "length (concat (map record_bytes recs))"
  from layout have layout': "remaining (seek s p) =
      concat (map record_bytes recs) @ [0x23, 0x81, 0x00] @ (hdr @ table @ rest)"
    by simp
  note rc = read_content_records [OF layout' wf dec]
  have a: "advance (seek s (p + (?L + 3))) (15 + length table) =
      seek s (p + (?L + 18 + length table))"
    by (simp add: advance_def seek_def)
  have b: "pos (seek s (p + (?L + 3))) + (15 + length table) = p + (?L + 18 + length table)"
    by (simp add: seek_def)
  show ?thesis
    unfolding rc(1) read_trailer_table [OF rc(2) hdr B len] a b by simp
qed

text \<open>
  Claim C6. The body starts at offset \<open>p\<close> with a sequence of well-formed records, the
  end-of-body record, a trailer whose table lists the sequence indices of the segments
  in the order of the stream, and every compressed block decompresses. Then
  \<^verbatim>\<open>read_content\<close> returns the UTF-16 little-endian decoding of the concatenation of the
  decompressed blocks, taken in the order in which the segments stand in the stream,
  whatever their sequence indices are, together with the offset after the table.
\<close>

theorem body_in_read_order:
  assumes layout: "remaining (seek s p) =
      concat (map record_bytes recs) @ [0x23, 0x81, 0x00] @ hdr @ table @ rest"
    and wf: "\<forall>r \<in> set recs. wf_record r"
    and dec: "map dec (segment_blocks recs) = map Inr plains"
    and hdr: "unpack_hibii hdr = Inr (h, i1, b, i2, B)"
    and B: "9 \<le> B"
    and len: "length table = 4 * nat ((B - 9) div 4)"
    and idx: "int32s table = segment_indices recs"
    and utf: "decode_utf16_le (concat plains) = Inr body"
  shows "read_content dec s (Some (int p)) =
     Some (Inr ((body, p + (length (concat (map record_bytes recs)) + 18 + length table)),
                seek s (p + (length (concat (map record_bytes recs)) + 18 + length table))))"
  unfolding read_content_body [OF layout wf dec hdr B len] using idx utf by simp

theorem body_in_read_order_witness:
  "read_content Inr
     \<lparr>data = [0x24, 7, 0, 0, 0, 11, 0, 0, 0, 0x48, 0x00,
              0x23, 0x0a, 0x00, 0, 0, 0, 0, 0, 0,
              0x24, 3, 0, 0, 0, 11, 0, 0, 0, 0x69, 0x00,
              0x23, 0x81, 0x00,
              1, 9, 5, 0, 0, 0, 0x24, 5, 0, 0, 0, 17, 0, 0, 0,
              7, 0, 0, 0, 3, 0, 0, 0], pos = 0\<rparr> (Some 0) =
   Some (Inr (([0x48, 0x69], 57),
     \<lparr>data = [0x24, 7, 0, 0, 0, 11, 0, 0, 0, 0x48, 0x00,
              0x23, 0x0a, 0x00, 0, 0, 0, 0, 0, 0,
              0x24, 3, 0, 0, 0, 11, 0, 0, 0, 0x69, 0x00,
              0x23, 0x81, 0x00,
              1, 9, 5, 0, 0, 0, 0x24, 5, 0, 0, 0, 17, 0, 0, 0,
              7, 0, 0, 0, 3, 0, 0, 0], pos = 57\<rparr>))"
proof -
  let ?recs = "[Segment [7, 0, 0, 0, 11, 0, 0, 0] [0x48, 0x00],
                Control [0x0a, 0x00] [0, 0, 0, 0, 0, 0],
                Segment [3, 0, 0, 0, 11, 0, 0, 0] [0x69, 0x00]]"
  let ?hdr = "[1, 9, 5, 0, 0, 0, 0x24, 5, 0, 0, 0, 17, 0, 0, 0] :: bytes"
  let ?table = "[7, 0, 0, 0, 3, 0, 0, 0] :: bytes"
  let ?s = "\<lparr>data = [0x24, 7, 0, 0, 0, 11, 0, 0, 0, 0x48, 0x00,
              0x23, 0x0a, 0x00, 0, 0, 0, 0, 0, 0,
              0x24, 3, 0, 0, 0, 11, 0, 0, 0, 0x69, 0x00,
              0x23, 0x81, 0x00,
              1, 9, 5, 0, 0, 0, 0x24, 5, 0, 0, 0, 17, 0, 0, 0,
              7, 0, 0, 0, 3, 0, 0, 0 :: byte], pos = 0\<rparr>"
  have layout: "remaining (seek ?s 0) =
      concat (map record_bytes ?recs) @ [0x23, 0x81, 0x00] @ ?hdr @ ?table @ []"
    by (simp add: remaining_def seek_def)
  have wf: "\<forall>r \<in> set ?recs. wf_record r"
    by (simp add: int16_def int32_def signed_def)
  have dec: "map Inr (segment_blocks ?recs) = (map Inr [[0x48, 0x00], [0x69, 0x00]]
      :: (error + bytes) list)"
    by simp
  have hdr: "unpack_hibii ?hdr = Inr (2305, 5, 36, 5, 17)"
    by (simp add: unpack_defs)
  have len: "length ?table = 4 * nat (((17::int) - 9) div 4)"
    by simp
  have idx: "int32s ?table = segment_indices ?recs"
    by (simp add: int32_def signed_def)
  have utf: "decode_utf16_le (concat [[0x48, 0x00], [0x69, 0x00]]) = Inr [0x48, 0x69]"
    by simp
  from body_in_read_order [OF layout wf dec hdr _ len idx utf]
  show ?thesis by (simp add: seek_def)
qed

lemma decode_utf16_le_error: "decode_utf16_le bs = Inl e \<Longrightarrow> e = UnicodeDecodeError"
  by (induction bs arbitrary: e rule: decode_utf16_le.induct)
    (auto simp: Let_def split: if_splits sum.splits list.splits)

text \<open>
  Claim C7. The body starts at offset \<open>p\<close> with a sequence of well-formed records whose
  blocks all decompress, then the end-of-body record, then a trailer of 15 bytes with the
  encoded count \<open>B\<close> (at least 9) and the \<open>(B - 9) div 4\<close> values of 4 bytes it declares.
  \<^verbatim>\<open>read_content\<close> reads exactly these values and compares them with the sequence indices
  it collected from the segments, as lists: if the two lists differ, in a value, in the
  order or in the length, it raises \<^verbatim>\<open>AssertionError\<close>; if they are equal it does not,
  and goes on to decode the body.
\<close>

theorem trailer_indices_checked:
  assumes layout: "remaining (seek s p) =
      concat (map record_bytes recs) @ [0x23, 0x81, 0x00] @ hdr @ table @ rest"
    and wf: "\<forall>r \<in> set recs. wf_record r"
    and dec: "map dec (segment_blocks recs) = map Inr plains"
    and hdr: "unpack_hibii hdr = Inr (h, i1, b, i2, B)"
    and B: "9 \<le> B"
    and len: "length table = 4 * nat ((B - 9) div 4)"
  shows "length (int32s table) = nat ((B - 9) div 4)
     \<and> (int32s table \<noteq> segment_indices recs \<longrightarrow>
          read_content dec s (Some (int p)) = Some (Inl AssertionError))
     \<and> (int32s table = segment_indices recs \<longrightarrow>
          read_content dec s (Some (int p)) \<noteq> Some (Inl AssertionError) \<and>
          read_content dec s (Some (int p)) =
            Some (case decode_utf16_le (concat plains) of
                    Inl e \<Rightarrow> Inl e
                  | Inr content \<Rightarrow>
                      Inr ((content,
                            p + (length (concat (map record_bytes recs)) + 18 + length table)),
                           seek s (p + (length (concat (map record_bytes recs)) + 18
                                        + length table)))))"
proof (intro conjI impI)
  show "length (int32s table) = nat ((B - 9) div 4)"
    by (rule length_int32s [OF len])
next
  assume "int32s table \<noteq> segment_indices recs"
  then show "read_content dec s (Some (int p)) = Some (Inl AssertionError)"
    unfolding read_content_body [OF layout wf dec hdr B len] by auto
next
  assume eq: "int32s table = segment_indices recs"
  then show "read_content dec s (Some (int p)) =
            Some (case decode_utf16_le (concat plains) of
                    Inl e \<Rightarrow> Inl e
                  | Inr content \<Rightarrow>
                      Inr ((content,
                            p + (length (concat (map record_bytes recs)) + 18 + length table)),
                           seek s (p + (length (concat (map record_bytes recs)) + 18
                                        + length table))))"
    unfolding read_content_body [OF layout wf dec hdr B len] by simp
  then show "read_content dec s (Some (int p)) \<noteq> Some (Inl AssertionError)"
    by (auto split: sum.splits dest: decode_utf16_le_error)
qed

theorem trailer_indices_checked_witness:
  "read_content Inr
     \<lparr>data = [0x24, 7, 0, 0, 0, 11, 0, 0, 0, 0x48, 0x00,
              0x24, 3, 0, 0, 0, 11, 0, 0, 0, 0x69, 0x00,
              0x23, 0x81, 0x00,
              1, 9, 5, 0, 0, 0, 0x24, 5, 0, 0, 0, 17, 0, 0, 0,
              3, 0, 0, 0, 7, 0, 0, 0], pos = 0\<rparr> (Some 0) = Some (Inl AssertionError)
   \<and> read_content Inr
     \<lparr>data = [0x24, 7, 0, 0, 0, 11, 0, 0, 0, 0x48, 0x00,
              0x24, 3, 0, 0, 0, 11, 0, 0, 0, 0x69, 0x00,
              0x23, 0x81, 0x00,
              1, 9, 5, 0, 0, 0, 0x24, 5, 0, 0, 0, 17, 0, 0, 0,
              7, 0, 0, 0, 3, 0, 0, 0], pos = 0\<rparr> (Some 0) \<noteq> Some (Inl AssertionError)"
proof (intro conjI)
  let ?recs = "[Segment [7, 0, 0, 0, 11, 0, 0, 0] [0x48, 0x00],
                Segment [3, 0, 0, 0, 11, 0, 0, 0] [0x69, 0x00]]"
  let ?hdr = "[1, 9, 5, 0, 0, 0, 0x24, 5, 0, 0, 0, 17, 0, 0, 0] :: bytes"
  have wf: "\<forall>r \<in> set ?recs. wf_record r"
    by (simp add: int16_def int32_def signed_def)
  have dec: "map Inr (segment_blocks ?recs) = (map Inr [[0x48, 0x00], [0x69, 0x00]]
      :: (error + bytes) list)"
    by simp
  have hdr: "unpack_hibii ?hdr = Inr (2305, 5, 36, 5, 17)"
    by (simp add: unpack_defs)
  let ?bad = "[3, 0, 0, 0, 7, 0, 0, 0] :: bytes"
  let ?s = "\<lparr>data = [0x24, 7, 0, 0, 0, 11, 0, 0, 0, 0x48, 0x00,
              0x24, 3, 0, 0, 0, 11, 0, 0, 0, 0x69, 0x00,
              0x23, 0x81, 0x00,
              1, 9, 5, 0, 0, 0, 0x24, 5, 0, 0, 0, 17, 0, 0, 0,
              3, 0, 0, 0, 7, 0, 0, 0 :: byte], pos = 0\<rparr>"
  have layout: "remaining (seek ?s 0) =
      concat (map record_bytes ?recs) @ [0x23, 0x81, 0x00] @ ?hdr @ ?bad @ []"
    by (simp add: remaining_def seek_def)
  have len: "length ?bad = 4 * nat (((17::int) - 9) div 4)"
    by simp
  have ne: "int32s ?bad \<noteq> segment_indices ?recs"
    by (simp add: int32_def signed_def)
  from trailer_indices_checked [OF layout wf dec hdr _ len] ne
  show "read_content Inr ?s (Some 0) = Some (Inl AssertionError)"
    by simp
next
  let ?recs = "[Segment [7, 0, 0, 0, 11, 0, 0, 0] [0x48, 0x00],
                Segment [3, 0, 0, 0, 11, 0, 0, 0] [0x69, 0x00]]"
  let ?hdr = "[1, 9, 5, 0, 0, 0, 0x24, 5, 0, 0, 0, 17, 0, 0, 0] :: bytes"
  have wf: "\<forall>r \<in> set ?recs. wf_record r"
    by (simp add: int16_def int32_def signed_def)
  have dec: "map Inr (segment_blocks ?recs) = (map Inr [[0x48, 0x00], [0x69, 0x00]]
      :: (error + bytes) list)"
    by simp
  have hdr: "unpack_hibii ?hdr = Inr (2305, 5, 36, 5, 17)"
    by (simp add: unpack_defs)
  let ?good = "[7, 0, 0, 0, 3, 0, 0, 0] :: bytes"
  let ?s = "\<lparr>data = [0x24, 7, 0, 0, 0, 11, 0, 0, 0, 0x48, 0x00,
              0x24, 3, 0, 0, 0, 11, 0, 0, 0, 0x69, 0x00,
              0x23, 0x81, 0x00,
              1, 9, 5, 0, 0, 0, 0x24, 5, 0, 0, 0, 17, 0, 0, 0,
              7, 0, 0, 0, 3, 0, 0, 0 :: byte], pos = 0\<rparr>"
  have layout: "remaining (seek ?s 0) =
      concat (map record_bytes ?recs) @ [0x23, 0x81, 0x00] @ ?hdr @ ?good @ []"
    by (simp add: remaining_def seek_def)
  have len: "length ?good = 4 * nat (((17::int) - 9) div 4)"
    by simp
  have eq: "int32s ?good = segment_indices ?recs"
    by (simp add: int32_def signed_def)
  from trailer_indices_checked [OF layout wf dec hdr _ len] eq
  show "read_content Inr ?s (Some 0) \<noteq> Some (Inl AssertionError)"
    by simp
qed

subsection \<open>The category of a returned metadata\<close>

lemma BLOCK_TYPE_DICT_text:
  assumes "2 \<le> t" and "t < 10"
  shows "BLOCK_TYPE_DICT t \<in> Some ` {''title'', ''author'', ''year'', ''month'', ''date'',
      ''book_type'', ''publisher'', ''retailer''}"
proof -
  from assms have "t = 2 \<or> t = 3 \<or> t = 4 \<or> t = 5 \<or> t = 6 \<or> t = 7 \<or> t = 8 \<or> t = 9"
    by arith
  then show ?thesis
    by (auto simp: BLOCK_TYPE_DICT_def)
qed

lemma category_block_ok:
  "category_block s md = Inr (Continue (s', md')) \<Longrightarrow> category_ok md'"
  by (auto simp: category_block_def category_dict_def category_ok_def
      split: sum.splits prod.splits option.splits if_splits)

lemma text_block_ok:
  assumes "text_block (BLOCK_TYPE_DICT t) s md = Inr (Continue (s', md'))"
    and "2 \<le> t" and "t < 10" and "category_ok md"
  shows "category_ok md'"
proof -
  from BLOCK_TYPE_DICT_text [OF assms(2,3)] obtain k where
    k: "BLOCK_TYPE_DICT t = Some k" "k \<noteq> ''category''"
    by auto
  with assms(1,4) show ?thesis
    by (auto simp: text_block_def category_ok_def split: sum.splits prod.splits)
qed

lemma other_blocks_ok:
  assumes "category_ok md"
  shows "full_length_block s md = Inr (Continue (s', md')) \<Longrightarrow> category_ok md'"
    and "chapter_offsets_block s md = Inr (Continue (s', md')) \<Longrightarrow> category_ok md'"
    and "chapter_titles_block s md = Inr (Break (s', md')) \<Longrightarrow> category_ok md'"
  using assms
  by (auto simp: full_length_block_def chapter_offsets_block_def chapter_titles_block_def
      category_ok_def Let_def simp del: read_titles.simps
      split: sum.splits prod.splits if_splits)

lemma block_no_break:
  "category_block s md \<noteq> Inr (Break r)"
  "text_block bt s md \<noteq> Inr (Break r)"
  "full_length_block s md \<noteq> Inr (Break r)"
  "chapter_offsets_block s md \<noteq> Inr (Break r)"
  by (auto simp: category_block_def text_block_def full_length_block_def
      chapter_offsets_block_def Let_def split: sum.splits prod.splits option.splits if_splits)

lemma chapter_titles_no_continue: "chapter_titles_block s md \<noteq> Inr (Continue r)"
  by (auto simp: chapter_titles_block_def Let_def simp del: read_titles.simps
      split: sum.splits prod.splits if_splits)

lemma read_metadata_block_ok:
  assumes blk: "read_metadata_block s md = Inr (Continue (s', md'))
              \<or> read_metadata_block s md = Inr (Break (s', md'))"
    and ok: "category_ok md"
  shows "category_ok md'"
proof -
  from blk obtain buf s1 splitter t where
    t: "read s 3 = Inr (buf, s1)" "unpack_cH buf = Inr (splitter, t)" "splitter = [0x23]"
    by (auto simp: read_metadata_block_def split: sum.splits prod.splits if_splits)
  then have eq: "read_metadata_block s md =
     (if t = 0x01 then category_block s1 md
      else if 0x02 \<le> t \<and> t < 0x0a then text_block (BLOCK_TYPE_DICT t) s1 md
      else if t = 0x0b then full_length_block s1 md
      else if t = 0x83 then chapter_offsets_block s1 md
      else if t = 0x84 then chapter_titles_block s1 md
      else Inr (Continue (s1, md)))"
    by (simp add: read_metadata_block_def Let_def)
  consider "t = 0x01" | "0x02 \<le> t \<and> t < 0x0a" | "t = 0x0b" | "t = 0x83" | "t = 0x84"
    | "t \<noteq> 0x01" "\<not> (0x02 \<le> t \<and> t < 0x0a)" "t \<noteq> 0x0b" "t \<noteq> 0x83" "t \<noteq> 0x84"
    by blast
  then show ?thesis
  proof cases
    case 1
    with blk eq show ?thesis
      by (auto simp: block_no_break dest: category_block_ok)
  next
    case 2
    with blk eq ok show ?thesis
      by (auto simp: block_no_break dest: text_block_ok)
  next
    case 3
    with blk eq ok show ?thesis
      by (auto simp: block_no_break dest: other_blocks_ok(1))
  next
    case 4
    with blk eq ok show ?thesis
      by (auto simp: block_no_break dest: other_blocks_ok(2))
  next
    case 5
    with blk eq ok show ?thesis
      by (auto simp: chapter_titles_no_continue dest: other_blocks_ok(3))
  next
    case 6
    with blk eq ok show ?thesis by auto
  qed
qed

lemma read_metadata_loop_ok:
  "read_metadata_loop s md = Inr (s', md') \<Longrightarrow> category_ok md \<Longrightarrow> category_ok md'"
proof (induction s md rule: read_metadata_loop.induct)
  case (1 s md)
  note prems = "1.prems" and IH = "1.IH"
  show ?case
  proof (cases "read_metadata_block s md")
    case (Inl e)
    with prems(1) show ?thesis by simp
  next
    case (Inr st)
    show ?thesis
    proof (cases st)
      case (Break r)
      with Inr prems(1) have "read_metadata_block s md = Inr (Break (s', md'))" by simp
      with read_metadata_block_ok prems(2) show ?thesis by blast
    next
      case (Continue r)
      obtain s1 md1 where r: "r = (s1, md1)" by (cases r)
      with Inr Continue have blk: "read_metadata_block s md = Inr (Continue (s1, md1))" by simp
      with read_metadata_block_ok prems(2) have ok1: "category_ok md1" by blast
      from blk prems(1) have "read_metadata_loop s1 md1 = Inr (s', md')" by simp
      from IH [OF Inr Continue r [symmetric] this ok1] show ?thesis .
    qed
  qed
qed

text \<open>
  A metadata that \<^verbatim>\<open>read_metadata\<close> returns has the category Novel: the condition of the
  warning of line 118 never holds, and no stream makes \<^verbatim>\<open>read_metadata\<close> return Comic.
\<close>

lemma read_metadata_category_Novel:
  assumes "read_metadata stream offset = Inr ((md, off), s')"
  shows "md ''category'' = Some (PyStr (py_str ''Novel''))" and "\<not> warns_unsupported md"
proof -
  from assms obtain s1 s2 md2 where
    loop: "read_metadata_loop s1 Map.empty = Inr (s2, md2)"
    and md: "md = md2(''body_offset'' \<mapsto> PyInt (int (tell s2)))"
    and cat: "md ''category'' \<noteq> None"
    by (auto simp: read_metadata_def Let_def simp del: read_metadata_loop.simps
        split: sum.splits prod.splits if_splits option.splits)
  have "category_ok Map.empty" by (simp add: category_ok_def)
  from read_metadata_loop_ok [OF loop this] md cat
  show "md ''category'' = Some (PyStr (py_str ''Novel''))"
    by (auto simp: category_ok_def)
  then show "\<not> warns_unsupported md"
    by (simp add: warns_unsupported_def)
qed

subsection \<open>\<^verbatim>\<open>from_stream\<close> as a whole\<close>

text \<open>
  \<^verbatim>\<open>from_stream\<close> hands the offsets and the titles of the metadata and the body to the
  chapter loop, so the facts about \<open>build_chapters\<close> are facts about the document.
\<close>

lemma from_stream_chapters:
  assumes "read_metadata stream None = Inr ((md, offset1), s1)"
    and "md ''chapter_titles'' = Some (PyList titles)"
    and "md ''chapter_offsets'' = Some (PyTuple offsets)"
    and "read_content dec s1 (Some (int offset1)) = Some (Inr ((content, offset2), s2))"
    and "read_cover dec s2 (Some (int offset2)) = Some (Inr ((cov, offset3), s3))"
  shows "from_stream dec stream =
     Some (case build_chapters offsets content 0 titles of
             Inl e \<Rightarrow> Inl e
           | Inr ch_list \<Rightarrow> Inr (UMDFile ch_list md))"
  using assms by (cases titles) (simp_all add: from_stream_def split: sum.splits)

text \<open>
  A file that ends after its metadata: \<^verbatim>\<open>read_content\<close> finds no splitter at the body
  offset, and \<^verbatim>\<open>from_stream\<close> never returns.
\<close>

lemma from_stream_truncated_never_returns:
  "from_stream dec
     \<lparr>data = [0x89, 0x9b, 0x9a, 0xde,
              0x23, 0x01, 0x00, 0x00, 0x08, 0x01, 0xb1, 0x0c,
              0x23, 0x02, 0x00, 0x00, 0x07, 0x54, 0x00,
              0x23, 0x84, 0x00, 1, 9, 8, 0, 0, 0, 0x24, 8, 0, 0, 0, 12, 0, 0, 0, 2, 0x43, 0],
      pos = 0\<rparr> = None"
proof -
  let ?s = "\<lparr>data = [0x89, 0x9b, 0x9a, 0xde,
              0x23, 0x01, 0x00, 0x00, 0x08, 0x01, 0xb1, 0x0c,
              0x23, 0x02, 0x00, 0x00, 0x07, 0x54, 0x00,
              0x23, 0x84, 0x00, 1, 9, 8, 0, 0, 0, 0x24, 8, 0, 0, 0, 12, 0, 0, 0, 2, 0x43, 0 :: byte],
      pos = 0\<rparr>"
  have "\<exists>md. read_metadata ?s None = Inr ((md, 40), ?s\<lparr>pos := 40\<rparr>)"
    by (simp add: read_metadata_def read_metadata_block_def category_block_def category_dict_def
      text_block_def chapter_titles_block_def BLOCK_TYPE_DICT_def py_str_def
      stream_defs unpack_defs)
  then obtain md where md: "read_metadata ?s None = Inr ((md, 40), ?s\<lparr>pos := 40\<rparr>)" ..
  have "read_content dec (?s\<lparr>pos := 40\<rparr>) (Some (int 40)) = None"
    by (rule read_content_never_returns_at_end) simp
  with md show ?thesis
    by (simp add: from_stream_def)
qed

text \<open>
  The scenario of the specification: a Novel with the title \<^verbatim>\<open>"T"\<close>, the author \<^verbatim>\<open>"A"\<close>,
  the chapter offsets \<^verbatim>\<open>[0]\<close>, the chapter titles \<^verbatim>\<open>["C"]\<close>, one segment with the
  index 1 and the text \<^verbatim>\<open>"Hi"\<close>, the end-of-body record and the trailer with the index 1.
  With a decompression that returns the block as it is, the document has one chapter,
  \<^verbatim>\<open>Chapter("C", "Hi")\<close>, and no cover.
\<close>

lemma from_stream_scenario:
  "map_option (map_sum id (\<lambda>d. (title d, author d, category d, chapters d, cover d)))
     (from_stream Inr
       \<lparr>data = [0x89, 0x9b, 0x9a, 0xde,
                0x23, 0x01, 0x00, 0x00, 0x08, 0x01, 0xb1, 0x0c,
                0x23, 0x02, 0x00, 0x00, 0x07, 0x54, 0x00,
                0x23, 0x03, 0x00, 0x00, 0x07, 0x41, 0x00,
                0x23, 0x0b, 0x00, 0, 9, 2, 0, 0, 0,
                0x23, 0x83, 0x00, 1, 9, 7, 0, 0, 0, 0x24, 7, 0, 0, 0, 13, 0, 0, 0, 0, 0, 0, 0,
                0x23, 0x84, 0x00, 1, 9, 8, 0, 0, 0, 0x24, 8, 0, 0, 0, 12, 0, 0, 0, 2, 0x43, 0,
                0x24, 1, 0, 0, 0, 13, 0, 0, 0, 0x48, 0, 0x69, 0,
                0x23, 0x81, 0x00, 1, 9, 3, 0, 0, 0, 0x24, 3, 0, 0, 0, 13, 0, 0, 0, 1, 0, 0, 0],
        pos = 0\<rparr>) =
   Some (Inr (Some (PyStr [0x54]), Some (PyStr [0x41]), Some (PyStr (py_str ''Novel'')),
              [Chapter [0x43] [0x48, 0x69]], None))"
  by (simp add: from_stream_def read_metadata_def read_metadata_block_def category_block_def
      category_dict_def text_block_def full_length_block_def chapter_offsets_block_def
      chapter_titles_block_def BLOCK_TYPE_DICT_def py_str_def
      read_content_def read_content_loop.simps read_content_turn_def control_payload_def
      read_trailer_def read_cover_def UMDFile_def py_slice_def slice_bound_def
      stream_defs unpack_defs)

end
